theory Spec2Isabelle
  imports Complex_Main "HOL-Library.Sublist"
begin

section \<open>Python values used by transcribe.py\<close>

text \<open>
  The program is Python. Its strings are modelled as \<^typ>\<open>string\<close>, one \<^typ>\<open>char\<close> per
  code point, which covers the code points below 256. Python integers are \<^typ>\<open>int\<close>.
  Exceptions are values of \<open>exn\<close>; a function that can raise returns \<open>exn + 'a\<close>.
\<close>

datatype exn = ValueError | IndexError | OverflowError | ZeroDivisionError

subsection \<open>Strings: \<open>str.isspace\<close>, \<open>str.strip\<close>, \<open>str.split\<close>, \<open>str.join\<close>\<close>

text \<open>The code points below 256 for which \<open>str.isspace\<close> holds; \<open>str.strip()\<close> removes them.\<close>

definition isspace :: "char \<Rightarrow> bool" where
  "isspace c = (of_char c \<in> {9, 10, 11, 12, 13, 28, 29, 30, 31, 32, 133, 160 :: nat})"

definition strip :: "string \<Rightarrow> string" where
  "strip s = rev (dropWhile isspace (rev (dropWhile isspace s)))"

text \<open>
  \<open>s.split(sep)\<close> for a non-empty separator: the leftmost occurrence of \<open>sep\<close> ends the
  first piece and the search goes on behind it. (Python raises on an empty separator; the
  program only splits on non-empty literals.)
\<close>

fun split :: "string \<Rightarrow> string \<Rightarrow> string list" where
  "split sep [] = [[]]"
| "split sep (c # cs) =
     (if sep \<noteq> [] \<and> take (length sep) (c # cs) = sep
      then [] # split sep (drop (length sep) (c # cs))
      else (case split sep cs of
              [] \<Rightarrow> [[c]]
            | r # rs \<Rightarrow> (c # r) # rs))"

fun join :: "string \<Rightarrow> string list \<Rightarrow> string" where
  "join sep [] = []"
| "join sep [x] = x"
| "join sep (x # y # ys) = x @ sep @ join sep (y # ys)"

subsection \<open>Integers: \<open>int(str)\<close>, \<open>str(int)\<close> and the format \<open>02d\<close>\<close>

definition isdigit :: "char \<Rightarrow> bool" where
  "isdigit c = (48 \<le> (of_char c :: nat) \<and> (of_char c :: nat) \<le> 57)"

definition digit_val :: "char \<Rightarrow> int" where
  "digit_val c = of_char c - 48"

definition digit_char :: "int \<Rightarrow> char" where
  "digit_char d = char_of (48 + d)"

text \<open>The value of a digit string, most significant digit first.\<close>

definition digits_val :: "string \<Rightarrow> int" where
  "digits_val ds = foldl (\<lambda>n c. 10 * n + digit_val c) 0 ds"

text \<open>The white space the integer parser skips: tab, LF, VT, FF, CR and space.\<close>

definition c_isspace :: "char \<Rightarrow> bool" where
  "c_isspace c = (of_char c \<in> {9, 10, 11, 12, 13, 32 :: nat})"

text \<open>
  The digits of an integer literal: groups of decimal digits separated by single
  underscores, no group empty.
\<close>

definition digit_groups_ok :: "string \<Rightarrow> bool" where
  "digit_groups_ok t = (\<forall>g \<in> set (split ''_'' t). g \<noteq> [] \<and> (\<forall>c \<in> set g. isdigit c))"

definition int_max_str_digits :: nat where
  "int_max_str_digits = 4300"

text \<open>
  \<open>int(s)\<close> for a string, base 10. The non-ASCII spaces U+0085 and U+00A0 count as a space;
  then leading white space, an optional sign, the digit groups and trailing white space.
  A literal of more than 4300 digits is refused. Every failure is a \<open>ValueError\<close>.
\<close>

definition py_int :: "string \<Rightarrow> exn + int" where
  "py_int s =
     (let t = map (\<lambda>c. if of_char c \<in> {133, 160 :: nat} then CHR '' '' else c) s;
          t1 = dropWhile c_isspace t;
          neg = (t1 \<noteq> [] \<and> hd t1 = CHR ''-'');
          t2 = (if t1 \<noteq> [] \<and> (hd t1 = CHR ''+'' \<or> hd t1 = CHR ''-'') then tl t1 else t1);
          t3 = rev (dropWhile c_isspace (rev t2));
          ds = filter (\<lambda>c. c \<noteq> CHR ''_'') t3
      in if \<not> digit_groups_ok t3 then Inl ValueError
         else if int_max_str_digits < length ds then Inl ValueError
         else Inr (if neg then - digits_val ds else digits_val ds))"

text \<open>The decimal digits of a non-negative integer, without leading zeros.\<close>

function decimal :: "int \<Rightarrow> string" where
  "decimal n = (if n < 10 then [digit_char n] else decimal (n div 10) @ [digit_char (n mod 10)])"
  by pat_completeness auto
termination
  by (relation "measure nat") auto

declare decimal.simps [simp del]

text \<open>\<open>str(n)\<close>, which is what \<open>f"{n}"\<close> prints.\<close>

definition py_str :: "int \<Rightarrow> string" where
  "py_str n = (if n < 0 then CHR ''-'' # decimal (- n) else decimal n)"

text \<open>\<open>f"{n:02d}"\<close>: the sign, then zeros up to a total width of 2, then the digits.\<close>

definition py_format_02d :: "int \<Rightarrow> string" where
  "py_format_02d n =
     (if n < 0 then CHR ''-'' # decimal (- n)
      else replicate (2 - length (decimal n)) CHR ''0'' @ decimal n)"

subsection \<open>Floats\<close>

text \<open>
  A Python float is an IEEE 754 double: a finite value (a rational), an infinity or NaN.
  Signed zeros are not told apart; the program never prints a float.
\<close>

datatype pyfloat = Fl rat | PInf | NInf | NaN

definition pow2 :: "int \<Rightarrow> rat" where
  "pow2 e = (if 0 \<le> e then 2 ^ nat e else 1 / 2 ^ nat (- e))"

text \<open>\<open>n.bit_length()\<close> for a non-negative integer.\<close>

function bit_length :: "int \<Rightarrow> int" where
  "bit_length n = (if n \<le> 0 then 0 else bit_length (n div 2) + 1)"
  by pat_completeness auto
termination
  by (relation "measure nat") auto

declare bit_length.simps [simp del]

text \<open>\<open>floor (log2 x)\<close> for a positive rational \<open>x\<close>.\<close>

definition ilog2 :: "rat \<Rightarrow> int" where
  "ilog2 x =
     (if 1 \<le> x then bit_length \<lfloor>x\<rfloor> - 1
      else (let b = bit_length \<lfloor>1 / x\<rfloor>
            in if x * pow2 (b - 1) = 1 then - (b - 1) else - b))"

definition round_half_even :: "rat \<Rightarrow> int" where
  "round_half_even x =
     (let f = \<lfloor>x\<rfloor>; d = x - of_int f
      in if d < 1 / 2 then f else if 1 / 2 < d then f + 1 else if even f then f else f + 1)"

text \<open>
  Rounding a rational to the nearest double, ties to even: 53 significant bits, least
  exponent -1022 (below it the spacing stays \<open>2^-1074\<close>), and a result of magnitude
  \<open>2^1024\<close> or more is an infinity.
\<close>

definition round_double :: "rat \<Rightarrow> pyfloat" where
  "round_double x =
     (if x = 0 then Fl 0
      else (let e = max (ilog2 \<bar>x\<bar>) (- 1022);
                u = pow2 (e - 52);
                r = of_int (round_half_even (x / u)) * u
            in if 2 ^ 1024 \<le> r then PInf else if r \<le> - (2 ^ 1024) then NInf else Fl r))"

text \<open>The spacing of the doubles around \<open>x\<close>, the unit of the rounding above.\<close>

definition ulp_of :: "rat \<Rightarrow> rat" where
  "ulp_of x = pow2 (max (ilog2 \<bar>x\<bar>) (- 1022) - 52)"

text \<open>An \<open>int\<close> operand of a float operation is converted first; too large an \<open>int\<close> raises.\<close>

definition float_of_int :: "int \<Rightarrow> exn + pyfloat" where
  "float_of_int n = (case round_double (of_int n) of Fl r \<Rightarrow> Inr (Fl r) | _ \<Rightarrow> Inl OverflowError)"

text \<open>\<open>a / b\<close> on two \<open>int\<close>s: the correctly rounded quotient.\<close>

definition int_truediv :: "int \<Rightarrow> int \<Rightarrow> exn + pyfloat" where
  "int_truediv a b =
     (if b = 0 then Inl ZeroDivisionError
      else (case round_double (of_int a / of_int b) of Fl r \<Rightarrow> Inr (Fl r) | _ \<Rightarrow> Inl OverflowError))"

fun float_neg :: "pyfloat \<Rightarrow> pyfloat" where
  "float_neg (Fl x) = Fl (- x)"
| "float_neg PInf = NInf"
| "float_neg NInf = PInf"
| "float_neg NaN = NaN"

fun float_add :: "pyfloat \<Rightarrow> pyfloat \<Rightarrow> pyfloat" where
  "float_add (Fl x) (Fl y) = round_double (x + y)"
| "float_add NaN b = NaN"
| "float_add a NaN = NaN"
| "float_add PInf NInf = NaN"
| "float_add NInf PInf = NaN"
| "float_add PInf b = PInf"
| "float_add NInf b = NInf"
| "float_add a PInf = PInf"
| "float_add a NInf = NInf"

definition float_sub :: "pyfloat \<Rightarrow> pyfloat \<Rightarrow> pyfloat" where
  "float_sub a b = float_add a (float_neg b)"

text \<open>\<open>a > b\<close>; every comparison with NaN is false.\<close>

fun float_gt :: "pyfloat \<Rightarrow> pyfloat \<Rightarrow> bool" where
  "float_gt (Fl x) (Fl y) = (y < x)"
| "float_gt NaN b = False"
| "float_gt a NaN = False"
| "float_gt PInf PInf = False"
| "float_gt PInf b = True"
| "float_gt a NInf = (a \<noteq> NInf)"
| "float_gt NInf b = False"
| "float_gt a PInf = False"

text \<open>\<open>a >= b\<close>.\<close>

definition float_ge :: "pyfloat \<Rightarrow> pyfloat \<Rightarrow> bool" where
  "float_ge a b = (a \<noteq> NaN \<and> b \<noteq> NaN \<and> \<not> float_gt b a)"

text \<open>\<open>int(x)\<close> for a float: truncation towards zero; infinities and NaN raise.\<close>

fun int_of_float :: "pyfloat \<Rightarrow> exn + int" where
  "int_of_float (Fl x) = Inr (if 0 \<le> x then \<lfloor>x\<rfloor> else \<lceil>x\<rceil>)"
| "int_of_float PInf = Inl OverflowError"
| "int_of_float NInf = Inl OverflowError"
| "int_of_float NaN = Inl ValueError"

section \<open>Time formatting\<close>

text \<open>\<open>_format_time(seconds, brackets)\<close>, lines 30-35. \<open>//\<close> and \<open>%\<close> are floor division and modulus.\<close>

definition format_time :: "pyfloat \<Rightarrow> bool \<Rightarrow> exn + string" where
  "format_time seconds brackets =
     (case int_of_float seconds of
        Inl e \<Rightarrow> Inl e
      | Inr total' \<Rightarrow>
          (let h = total' div 3600; m = (total' mod 3600) div 60; s = total' mod 60;
               time_str = (if 0 < h
                           then py_str h @ '':'' @ py_format_02d m @ '':'' @ py_format_02d s
                           else py_str m @ '':'' @ py_format_02d s)
           in Inr (if brackets then ''['' @ time_str @ '']'' else time_str)))"

definition format_timestamp :: "pyfloat \<Rightarrow> exn + string" where
  "format_timestamp seconds = format_time seconds True"

definition format_duration :: "pyfloat \<Rightarrow> exn + string" where
  "format_duration seconds = format_time seconds False"


section \<open>Caption parsing\<close>

text \<open>
  A segment is a Python dict with the keys \<open>start\<close>, \<open>end\<close> and \<open>text\<close>. The parser writes
  all three; the renderer reads each with \<open>dict.get\<close> and a default, so a key may be absent.
\<close>

record segment =
  seg_start :: "pyfloat option"
  seg_end :: "pyfloat option"
  seg_text :: "string option"

text \<open>
  \<open>parse_srt_timestamp\<close>, lines 107-112. Unpacking a list of the wrong length is a
  \<open>ValueError\<close>. The operands are evaluated from left to right: the four \<open>int(...)\<close>,
  the division, then the conversion of the integer sum for the final addition.
\<close>

definition parse_srt_timestamp :: "string \<Rightarrow> exn + pyfloat" where
  "parse_srt_timestamp timestamp =
     (case split '','' timestamp of
        [time_part, ms_part] \<Rightarrow>
          (case split '':'' time_part of
             [h, m, s] \<Rightarrow>
               (case py_int h of Inl e \<Rightarrow> Inl e | Inr hv \<Rightarrow>
               (case py_int m of Inl e \<Rightarrow> Inl e | Inr mv \<Rightarrow>
               (case py_int s of Inl e \<Rightarrow> Inl e | Inr sv \<Rightarrow>
               (case py_int ms_part of Inl e \<Rightarrow> Inl e | Inr msv \<Rightarrow>
               (case int_truediv msv 1000 of Inl e \<Rightarrow> Inl e | Inr fraction \<Rightarrow>
               (case float_of_int (hv * 3600 + mv * 60 + sv) of Inl e \<Rightarrow> Inl e | Inr whole \<Rightarrow>
                  Inr (float_add whole fraction)))))))
           | _ \<Rightarrow> Inl ValueError)
      | _ \<Rightarrow> Inl ValueError)"

text \<open>
  The body of the \<open>try\<close> in \<open>parse_srt\<close>, lines 127-137, for the lines of one block (at
  least three): \<open>Inr (Some seg)\<close> when a segment is appended, \<open>Inr None\<close> when the text is
  empty, \<open>Inl e\<close> when \<open>e\<close> is raised.
\<close>

definition parse_srt_try :: "string list \<Rightarrow> exn + segment option" where
  "parse_srt_try lines =
     (let timestamp_line = lines ! 1 in
      case split '' --> '' timestamp_line of
        [start_ts, end_ts] \<Rightarrow>
          (case parse_srt_timestamp (strip start_ts) of Inl e \<Rightarrow> Inl e | Inr start \<Rightarrow>
          (case parse_srt_timestamp (strip end_ts) of Inl e \<Rightarrow> Inl e | Inr end' \<Rightarrow>
             (let text = strip (join '' '' (drop 2 lines)) in
              if text \<noteq> []
              then Inr (Some \<lparr>seg_start = Some start, seg_end = Some end', seg_text = Some text\<rparr>)
              else Inr None)))
      | _ \<Rightarrow> Inl ValueError)"

text \<open>
  The \<open>for\<close> loop of \<open>parse_srt\<close>, lines 120-139, over the blocks still to read, with the
  list \<open>segments\<close> built so far. \<open>except (ValueError, IndexError): continue\<close> skips the
  block; any other exception leaves the function.
\<close>

fun parse_srt_loop :: "string list \<Rightarrow> segment list \<Rightarrow> exn + segment list" where
  "parse_srt_loop [] segments = Inr segments"
| "parse_srt_loop (block # blocks) segments =
     (let lines = split ''\<newline>'' (strip block) in
      if 3 \<le> length lines then
        (case parse_srt_try lines of
           Inr None \<Rightarrow> parse_srt_loop blocks segments
         | Inr (Some seg) \<Rightarrow> parse_srt_loop blocks (segments @ [seg])
         | Inl e \<Rightarrow>
             if e = ValueError \<or> e = IndexError then parse_srt_loop blocks segments
             else Inl e)
      else parse_srt_loop blocks segments)"

text \<open>\<open>parse_srt\<close>, lines 115-141.\<close>

definition parse_srt :: "string \<Rightarrow> exn + segment list" where
  "parse_srt content = parse_srt_loop (split ''\<newline>\<newline>'' (strip content)) []"

section \<open>Rendering\<close>

text \<open>The paragraph break threshold, line 27.\<close>

definition PARAGRAPH_GAP_SECONDS :: pyfloat where
  "PARAGRAPH_GAP_SECONDS = Fl (3 / 2)"

text \<open>The two metadata keys \<open>generate_markdown\<close> reads, and the transcription dict.\<close>

record video_info =
  title :: "string option"
  duration :: "pyfloat option"

record transcription =
  segments :: "segment list option"

text \<open>\<open>segment.get("start", 0)\<close>, \<open>segment.get("end", start)\<close> and \<open>segment.get("text", "")\<close>.\<close>

definition get_start :: "segment \<Rightarrow> pyfloat" where
  "get_start segment = (case seg_start segment of None \<Rightarrow> Fl 0 | Some v \<Rightarrow> v)"

definition get_end :: "segment \<Rightarrow> pyfloat" where
  "get_end segment = (case seg_end segment of None \<Rightarrow> get_start segment | Some v \<Rightarrow> v)"

definition get_text :: "segment \<Rightarrow> string" where
  "get_text segment = (case seg_text segment of None \<Rightarrow> [] | Some v \<Rightarrow> v)"

text \<open>The loop of lines 224-230: one line and one empty line for each segment with text.\<close>

fun timestamp_loop :: "segment list \<Rightarrow> string list \<Rightarrow> exn + string list" where
  "timestamp_loop [] lines = Inr lines"
| "timestamp_loop (segment # rest) lines =
     (let start = get_start segment; text = strip (get_text segment) in
      if text \<noteq> [] then
        (case format_timestamp start of
           Inl e \<Rightarrow> Inl e
         | Inr timestamp \<Rightarrow> timestamp_loop rest (lines @ [timestamp @ '' '' @ text, []]))
      else timestamp_loop rest lines)"

text \<open>
  The loop of lines 237-250 with its three variables \<open>paragraphs\<close>, \<open>current_para\<close> and
  \<open>last_end\<close>; the threshold is the module constant, taken as a parameter here.
\<close>

fun paragraph_loop ::
  "pyfloat \<Rightarrow> segment list \<Rightarrow> string list \<Rightarrow> string list \<Rightarrow> pyfloat \<Rightarrow> string list \<times> string list"
where
  "paragraph_loop gap [] paragraphs current_para last_end = (paragraphs, current_para)"
| "paragraph_loop gap (segment # rest) paragraphs current_para last_end =
     (let start = get_start segment; end' = get_end segment; text = strip (get_text segment) in
      if text = [] then paragraph_loop gap rest paragraphs current_para last_end
      else if current_para \<noteq> [] \<and> float_gt (float_sub start last_end) gap
      then paragraph_loop gap rest (paragraphs @ [join '' '' current_para]) [text] end'
      else paragraph_loop gap rest paragraphs (current_para @ [text]) end')"

text \<open>Lines 233-253: the loop from the initial state, then the last paragraph.\<close>

definition group_paragraphs :: "pyfloat \<Rightarrow> segment list \<Rightarrow> string list" where
  "group_paragraphs gap segs =
     (case paragraph_loop gap segs [] [] (Fl 0) of
        (paragraphs, current_para) \<Rightarrow>
          if current_para \<noteq> [] then paragraphs @ [join '' '' current_para] else paragraphs)"

text \<open>Lines 255-257.\<close>

fun paragraph_lines :: "string list \<Rightarrow> string list \<Rightarrow> string list" where
  "paragraph_lines [] lines = lines"
| "paragraph_lines (para # rest) lines = paragraph_lines rest (lines @ [para, []])"

text \<open>
  \<open>generate_markdown\<close>, lines 197-259. The date \<open>datetime.now().strftime('%Y-%m-%d')\<close> is
  the argument \<open>today\<close>.
\<close>

definition header_lines :: "string \<Rightarrow> string \<Rightarrow> string \<Rightarrow> string \<Rightarrow> string list" where
  "header_lines title' url dur today =
     [''# Transcript: '' @ title',
      [],
      ''**Source:** '' @ url,
      ''**Duration:** '' @ dur,
      ''**Transcribed:** '' @ today,
      [],
      ''---'',
      [],
      ''## Transcript'',
      []]"

definition generate_markdown ::
  "video_info \<Rightarrow> transcription \<Rightarrow> string \<Rightarrow> bool \<Rightarrow> string \<Rightarrow> exn + string"
where
  "generate_markdown info tr url include_timestamps today =
     (let title' = (case title info of None \<Rightarrow> ''Untitled Video'' | Some t \<Rightarrow> t);
          duration' = (case duration info of None \<Rightarrow> Fl 0 | Some d \<Rightarrow> d)
      in case format_duration duration' of
           Inl e \<Rightarrow> Inl e
         | Inr dur \<Rightarrow>
             (let lines = header_lines title' url dur today;
                  segs = (case segments tr of None \<Rightarrow> [] | Some v \<Rightarrow> v)
              in if include_timestamps then
                   (case timestamp_loop segs lines of
                      Inl e \<Rightarrow> Inl e
                    | Inr lines' \<Rightarrow> Inr (join ''\<newline>'' lines'))
                 else Inr (join ''\<newline>'' (paragraph_lines (group_paragraphs PARAGRAPH_GAP_SECONDS segs) lines))))"

section \<open>The specification's notions\<close>

subsection \<open>The clock format in the words of the specification\<close>

definition two_digits :: "int \<Rightarrow> string" where
  "two_digits n = [digit_char (n div 10), digit_char (n mod 10)]"

text \<open>
  \<open>h = floor(total/3600)\<close>, \<open>m = floor((total mod 3600)/60)\<close>, \<open>s = total mod 60\<close>;
  \<open>H:MM:SS\<close> when the hours are positive and \<open>M:SS\<close> otherwise.
\<close>

definition clock_digits :: "int \<Rightarrow> string" where
  "clock_digits t =
     (if 0 < t div 3600
      then decimal (t div 3600) @ '':'' @ two_digits ((t mod 3600) div 60) @ '':'' @ two_digits (t mod 60)
      else decimal ((t mod 3600) div 60) @ '':'' @ two_digits (t mod 60))"

subsection \<open>Timed segments and the paragraph policy in the words of the specification\<close>

text \<open>The data model: a timed segment has a start, an end and a text.\<close>

record timed_segment =
  ts_start :: pyfloat
  ts_end :: pyfloat
  ts_text :: string

definition as_dict :: "timed_segment \<Rightarrow> segment" where
  "as_dict t = \<lparr>seg_start = Some (ts_start t), seg_end = Some (ts_end t), seg_text = Some (ts_text t)\<rparr>"

text \<open>
  The policy of the paragraph segmenter: a running buffer, a cursor \<open>lastEnd\<close> and the
  paragraphs put out so far. A segment with empty trimmed text is skipped. Otherwise, when
  the buffer is non-empty and \<open>start - lastEnd\<close> is greater than the threshold, the buffer
  is closed: its texts joined with spaces go to the output and the buffer starts empty.
  Then the segment's text goes to the buffer and \<open>lastEnd\<close> becomes the segment's end.
\<close>

record segmenter =
  buffer :: "string list"
  lastEnd :: pyfloat
  out :: "string list"

definition close_paragraph :: "segmenter \<Rightarrow> segmenter" where
  "close_paragraph st = st\<lparr>out := out st @ [join '' '' (buffer st)], buffer := []\<rparr>"

definition policy_step :: "pyfloat \<Rightarrow> segmenter \<Rightarrow> timed_segment \<Rightarrow> segmenter" where
  "policy_step threshold st seg =
     (if strip (ts_text seg) = [] then st
      else (let st' = (if buffer st \<noteq> [] \<and> float_gt (float_sub (ts_start seg) (lastEnd st)) threshold
                       then close_paragraph st else st)
            in st'\<lparr>buffer := buffer st' @ [ts_text seg], lastEnd := ts_end seg\<rparr>))"

text \<open>After the loop a non-empty buffer is flushed as the last paragraph.\<close>

definition reference_policy :: "timed_segment list \<Rightarrow> pyfloat \<Rightarrow> string list" where
  "reference_policy segs threshold =
     (let st = foldl (policy_step threshold) \<lparr>buffer = [], lastEnd = Fl 0, out = []\<rparr> segs
      in if buffer st \<noteq> [] then out (close_paragraph st) else out st)"


text \<open>The two lines of a segment in the timestamped transcript; none when its text is empty.\<close>

definition is_finite :: "pyfloat \<Rightarrow> bool" where
  "is_finite x = (case x of Fl r \<Rightarrow> True | _ \<Rightarrow> False)"

definition clock_bracketed :: "pyfloat \<Rightarrow> string" where
  "clock_bracketed x = (case format_timestamp x of Inr t \<Rightarrow> t | Inl e \<Rightarrow> [])"

definition clock_plain :: "pyfloat \<Rightarrow> string" where
  "clock_plain x = (case format_duration x of Inr t \<Rightarrow> t | Inl e \<Rightarrow> [])"

definition timestamped_lines :: "segment \<Rightarrow> string list" where
  "timestamped_lines seg =
     (if strip (get_text seg) = [] then []
      else [clock_bracketed (get_start seg) @ '' '' @ strip (get_text seg), []])"


subsection \<open>Example data\<close>

definition seg_hello :: timed_segment where
  "seg_hello = \<lparr>ts_start = Fl 0, ts_end = Fl 2, ts_text = ''Hello''\<rparr>"

definition seg_world :: timed_segment where
  "seg_world = \<lparr>ts_start = Fl 2, ts_end = Fl 4, ts_text = ''world''\<rparr>"

definition seg_later :: timed_segment where
  "seg_later = \<lparr>ts_start = Fl (11 / 2), ts_end = Fl 7, ts_text = ''later''\<rparr>"

subsection \<open>The head of the document\<close>

text \<open>
  The title heading, the metadata block, the divider and the transcript heading, with the
  defaults for an absent title and an absent duration.
\<close>

definition document_head :: "video_info \<Rightarrow> string \<Rightarrow> string \<Rightarrow> string list" where
  "document_head info url today =
     header_lines (case title info of None \<Rightarrow> ''Untitled Video'' | Some t \<Rightarrow> t) url
       (clock_plain (case duration info of None \<Rightarrow> Fl 0 | Some d \<Rightarrow> d)) today"

definition finite_duration :: "video_info \<Rightarrow> bool" where
  "finite_duration info = (case duration info of None \<Rightarrow> True | Some d \<Rightarrow> is_finite d)"

text \<open>Metadata with neither key.\<close>

definition info_none :: video_info where
  "info_none = \<lparr>title = None, duration = None\<rparr>"


subsection \<open>Caption blocks\<close>

text \<open>A numeric field of a timestamp: decimal digits only, \<open>n\<close> of them.\<close>

definition digit_field :: "nat \<Rightarrow> string \<Rightarrow> bool" where
  "digit_field n s = (length s = n \<and> list_all isdigit s)"

text \<open>A non-empty run of at most 4300 decimal digits, which \<open>int\<close> reads as it stands.\<close>

definition numeric :: "string \<Rightarrow> bool" where
  "numeric s = (s \<noteq> [] \<and> list_all isdigit s \<and> length s \<le> 4300)"

text \<open>The timestamp \<open>HH:MM:SS,mmm\<close> written from its four fields.\<close>

definition srt_time :: "string \<Rightarrow> string \<Rightarrow> string \<Rightarrow> string \<Rightarrow> string" where
  "srt_time hh mm ss ms = hh @ '':'' @ mm @ '':'' @ ss @ '','' @ ms"

text \<open>
  \<open>H*3600 + M*60 + S + ms/1000\<close> as Python computes it: the integer part exactly, the
  quotient and the sum in double precision.
\<close>

definition seconds_of :: "int \<Rightarrow> int \<Rightarrow> int \<Rightarrow> int \<Rightarrow> pyfloat" where
  "seconds_of H M S ms =
     float_add (Fl (of_int (H * 3600 + M * 60 + S))) (round_double (of_int ms / 1000))"

definition time_value :: "string \<Rightarrow> string \<Rightarrow> string \<Rightarrow> string \<Rightarrow> pyfloat" where
  "time_value hh mm ss ms = seconds_of (digits_val hh) (digits_val mm) (digits_val ss) (digits_val ms)"

text \<open>White space inside a line: any white space but the line feed.\<close>

definition blanks :: "string \<Rightarrow> bool" where
  "blanks w = list_all (\<lambda>c. isspace c \<and> c \<noteq> CHR 0x0A) w"

text \<open>
  A caption block: the index line, the timing line (with white space \<open>w1\<close> and \<open>w2\<close>
  around the separator, none in the plain format) and the text lines.
\<close>

definition timing_line :: "string \<Rightarrow> string \<Rightarrow> string \<Rightarrow> string \<Rightarrow> string" where
  "timing_line start_ts w1 w2 end_ts = start_ts @ w1 @ '' --> '' @ w2 @ end_ts"

definition caption_block :: "string \<Rightarrow> string \<Rightarrow> string list \<Rightarrow> string" where
  "caption_block index timing texts = join ''\<newline>'' (index # timing # texts)"

text \<open>
  Well-formed lines: the index line has no line feed and starts with a visible character;
  there is at least one text line, no text line is empty or has a line feed, and the last
  one ends with a visible character.
\<close>

definition index_line :: "string \<Rightarrow> bool" where
  "index_line s = (s \<noteq> [] \<and> \<not> isspace (hd s) \<and> CHR 0x0A \<notin> set s)"

definition text_lines :: "string list \<Rightarrow> bool" where
  "text_lines ls = (ls \<noteq> [] \<and> list_all (\<lambda>l. l \<noteq> [] \<and> CHR 0x0A \<notin> set l) ls \<and>
     \<not> isspace (last (last ls)))"

text \<open>
  What the parser needs of one side of a timing line to cut it out: it starts and ends
  with a visible character and has neither \<open>>\<close> nor a line feed.
\<close>

definition stamp :: "string \<Rightarrow> bool" where
  "stamp t = (t \<noteq> [] \<and> \<not> isspace (hd t) \<and> \<not> isspace (last t) \<and>
     CHR ''>'' \<notin> set t \<and> CHR 0x0A \<notin> set t)"

text \<open>
  What one block gives: the segment the loop of \<open>parse_srt\<close> appends for it, if any.
  A block of fewer than three lines, a block whose \<open>try\<close> raises and a block with empty
  text give none.
\<close>

definition segment_of :: "string \<Rightarrow> segment option" where
  "segment_of block =
     (let lines = split ''\<newline>'' (strip block)
      in if 3 \<le> length lines
         then (case parse_srt_try lines of Inr (Some seg) \<Rightarrow> Some seg | _ \<Rightarrow> None)
         else None)"

text \<open>
  The start timestamp of a block as the parser reads it: the part of the second line
  before the separator, trimmed.
\<close>

definition start_stamp :: "string \<Rightarrow> string" where
  "start_stamp block =
     (let lines = split ''\<newline>'' (strip block)
      in if length lines < 2 then [] else strip (hd (split '' --> '' (lines ! 1))))"

text \<open>\<open>x >= 0\<close> for a float.\<close>

definition non_negative :: "pyfloat \<Rightarrow> bool" where
  "non_negative x = float_ge x (Fl 0)"

section \<open>Time formatting: the clock strings\<close>

lemma digit_char_0: "digit_char 0 = CHR ''0''"
  unfolding digit_char_def by code_simp

lemma py_format_02d_two:
  assumes "0 \<le> n" "n < 100"
  shows "py_format_02d n = two_digits n"
proof (cases "n < 10")
  case True
  then show ?thesis using assms
    by (simp add: py_format_02d_def two_digits_def decimal.simps[of n] digit_char_0)
next
  case False
  then have "n div 10 < 10" "0 \<le> n div 10" using assms by auto
  then show ?thesis using assms False
    by (simp add: py_format_02d_def two_digits_def decimal.simps[of n] decimal.simps[of "n div 10"])
qed

lemma seconds_range: "0 \<le> (t::int) mod 60 \<and> t mod 60 < 100"
proof -
  have "t mod 60 < 60" "0 \<le> t mod 60" by simp_all
  then show ?thesis by linarith
qed

lemma minutes_range: "0 \<le> ((t::int) mod 3600) div 60 \<and> (t mod 3600) div 60 < 100"
proof -
  have "t mod 3600 \<le> 3599" "0 \<le> t mod 3600"
    using pos_mod_bound[of 3600 t] by simp_all
  then have "(t mod 3600) div 60 \<le> 3599 div 60" "0 \<le> (t mod 3600) div 60"
    by (simp_all add: zdiv_mono1 pos_imp_zdiv_nonneg_iff)
  then show ?thesis by simp
qed

lemma format_time_nonneg:
  assumes "0 \<le> x"
  shows "format_time (Fl x) b =
    Inr (if b then ''['' @ clock_digits \<lfloor>x\<rfloor> @ '']'' else clock_digits \<lfloor>x\<rfloor>)"
  using assms minutes_range[of "\<lfloor>x\<rfloor>"] seconds_range[of "\<lfloor>x\<rfloor>"]
  by (simp add: format_time_def Let_def clock_digits_def py_str_def py_format_02d_two)

text \<open>
  Claim C5. For a finite seconds value \<open>x \<ge> 0\<close> both formatters truncate to \<open>floor x\<close> and
  print the clock digits of the specification: \<open>H:MM:SS\<close> with unpadded hours when the
  hours are positive, \<open>M:SS\<close> otherwise, minutes and seconds on two digits; the bracketed
  variant adds the brackets. The three examples of the specification hold.
\<close>

theorem format_clock:
  "(0 \<le> x \<longrightarrow>
      format_timestamp (Fl x) = Inr (''['' @ clock_digits \<lfloor>x\<rfloor> @ '']'') \<and>
      format_duration (Fl x) = Inr (clock_digits \<lfloor>x\<rfloor>)) \<and>
   format_timestamp (Fl 65) = Inr ''[1:05]'' \<and>
   format_timestamp (Fl 3661) = Inr ''[1:01:01]'' \<and>
   format_duration (Fl 59) = Inr ''0:59''"
proof -
  have a: "format_timestamp (Fl 65) = Inr ''[1:05]''" by code_simp
  have b: "format_timestamp (Fl 3661) = Inr ''[1:01:01]''" by code_simp
  have c: "format_duration (Fl 59) = Inr ''0:59''" by code_simp
  show ?thesis using a b c
    by (simp add: format_timestamp_def format_duration_def format_time_nonneg)
qed

theorem format_clock_witness:
  "(0::rat) \<le> 7323 / 2 \<and> format_timestamp (Fl (7323 / 2)) = Inr ''[1:01:01]'' \<and>
   format_duration (Fl (7323 / 2)) = Inr ''1:01:01''"
proof -
  have f: "\<lfloor>7323 / 2 :: rat\<rfloor> = 3661" by code_simp
  have d: "clock_digits 3661 = ''1:01:01''" by code_simp
  show ?thesis using format_clock [of "7323 / 2"] by (simp add: f d)
qed

section \<open>Facts about the float model\<close>

lemma bit_length_bounds:
  "0 < n \<Longrightarrow> 1 \<le> bit_length n \<and> 2 ^ nat (bit_length n - 1) \<le> n \<and> n < 2 ^ nat (bit_length n)"
proof (induction n rule: bit_length.induct)
  case (1 n)
  show ?case
  proof (cases "n div 2 = 0")
    case True
    with 1 have "n = 1" by presburger
    then show ?thesis by (simp add: bit_length.simps[of 1] bit_length.simps[of 0])
  next
    case False
    with 1 have pos: "0 < n div 2" by presburger
    from 1 pos have IH: "1 \<le> bit_length (n div 2)"
      "2 ^ nat (bit_length (n div 2) - 1) \<le> n div 2" "n div 2 < 2 ^ nat (bit_length (n div 2))"
      by auto
    have b: "bit_length n = bit_length (n div 2) + 1"
      using 1 by (simp add: bit_length.simps[of n])
    let ?b = "bit_length (n div 2)"
    have e1: "nat (?b + 1 - 1) = Suc (nat (?b - 1))" using IH(1) by simp
    have e2: "nat (?b + 1) = Suc (nat ?b)" using IH(1) by simp
    have "2 * (n div 2) \<le> n" "n \<le> 2 * (n div 2) + 1" by presburger+
    then show ?thesis using IH unfolding b e1 e2 by simp
  qed
qed

lemma pow2_pos: "0 < pow2 e"
  by (simp add: pow2_def)

lemma pow2_powi: "pow2 e = 2 powi e"
  by (simp add: pow2_def power_int_def inverse_eq_divide power_one_over)

lemma pow2_add: "pow2 (a + b) = pow2 a * pow2 b"
  by (simp add: pow2_powi power_int_add)

lemma pow2_mono: "a \<le> b \<Longrightarrow> pow2 a \<le> pow2 b"
  by (simp add: pow2_powi power_int_increasing)

lemma pow2_nat: "pow2 (int n) = 2 ^ n"
  by (simp add: pow2_def)

lemma pow2_ilog2_le:
  assumes "0 < x"
  shows "pow2 (ilog2 x) \<le> x"
proof (cases "1 \<le> x")
  case True
  then have n: "0 < \<lfloor>x\<rfloor>" by linarith
  from bit_length_bounds[OF n] have b: "1 \<le> bit_length \<lfloor>x\<rfloor>"
    and le: "2 ^ nat (bit_length \<lfloor>x\<rfloor> - 1) \<le> \<lfloor>x\<rfloor>" by auto
  have "pow2 (bit_length \<lfloor>x\<rfloor> - 1) = 2 ^ nat (bit_length \<lfloor>x\<rfloor> - 1)"
    using b by (simp add: pow2_def)
  also have "\<dots> = of_int (2 ^ nat (bit_length \<lfloor>x\<rfloor> - 1))" by simp
  also have "\<dots> \<le> of_int \<lfloor>x\<rfloor>" using le by (simp only: of_int_le_iff)
  also have "\<dots> \<le> x" by simp
  finally show ?thesis using True by (simp add: ilog2_def)
next
  case False
  then have x1: "x < 1" by simp
  then have "1 < 1 / x" using assms by simp
  then have k: "0 < \<lfloor>1 / x\<rfloor>" by linarith
  let ?b = "bit_length \<lfloor>1 / x\<rfloor>"
  from bit_length_bounds[OF k] have b: "1 \<le> ?b" and lt: "\<lfloor>1 / x\<rfloor> < 2 ^ nat ?b" by auto
  show ?thesis
  proof (cases "x * pow2 (?b - 1) = 1")
    case True
    have "pow2 (- (?b - 1)) * pow2 (?b - 1) = 1"
      using pow2_add[of "- (?b - 1)" "?b - 1"] by (simp add: pow2_def)
    with True have "pow2 (- (?b - 1)) = x"
      using pow2_pos[of "?b - 1"] by (metis mult_cancel_right less_irrefl)
    then show ?thesis using True False by (simp add: ilog2_def Let_def)
  next
    case ne: False
    have "1 / x < of_int (2 ^ nat ?b)" using lt by (simp only: floor_less_iff)
    then have "1 / x < 2 ^ nat ?b" by simp
    then have "1 < 2 ^ nat ?b * x" using assms by (simp add: pos_divide_less_eq)
    then have "1 / 2 ^ nat ?b \<le> x" by (simp add: pos_divide_le_eq mult.commute)
    moreover have "pow2 (- ?b) = 1 / 2 ^ nat ?b" using b by (simp add: pow2_def)
    ultimately show ?thesis using ne False by (simp add: ilog2_def Let_def)
  qed
qed

lemma round_half_even_of_int: "round_half_even (of_int k) = k"
  by (simp add: round_half_even_def)

lemma round_half_even_cases:
  "round_half_even x = \<lfloor>x\<rfloor> \<and> x - of_int \<lfloor>x\<rfloor> \<le> 1 / 2 \<or>
   round_half_even x = \<lfloor>x\<rfloor> + 1 \<and> 1 / 2 \<le> x - of_int \<lfloor>x\<rfloor>"
  by (simp add: round_half_even_def Let_def)

lemma round_half_even_bounds:
  "of_int (round_half_even x) \<le> x + 1 / 2 \<and> x - 1 / 2 \<le> of_int (round_half_even x)"
proof -
  have f: "of_int \<lfloor>x\<rfloor> \<le> x" "x < of_int \<lfloor>x\<rfloor> + 1" by linarith+
  from round_half_even_cases[of x] show ?thesis
  proof (elim disjE conjE)
    assume r: "round_half_even x = \<lfloor>x\<rfloor>" and d: "x - of_int \<lfloor>x\<rfloor> \<le> 1 / 2"
    show ?thesis unfolding r using f d by linarith
  next
    assume r: "round_half_even x = \<lfloor>x\<rfloor> + 1" and d: "1 / 2 \<le> x - of_int \<lfloor>x\<rfloor>"
    have "of_int (\<lfloor>x\<rfloor> + 1) = (of_int \<lfloor>x\<rfloor> :: rat) + 1" by simp
    then show ?thesis unfolding r using f d by linarith
  qed
qed

lemma round_half_even_mono_int: "of_int k \<le> x \<Longrightarrow> k \<le> round_half_even x"
proof -
  assume "of_int k \<le> x"
  then have "k \<le> \<lfloor>x\<rfloor>" by (simp add: le_floor_iff)
  then show ?thesis by (auto simp: round_half_even_def Let_def)
qed


lemma round_double_unfold:
  "x \<noteq> 0 \<Longrightarrow> round_double x =
    (let r = of_int (round_half_even (x / ulp_of x)) * ulp_of x
     in if 2 ^ 1024 \<le> r then PInf else if r \<le> - (2 ^ 1024) then NInf else Fl r)"
  by (simp add: round_double_def ulp_of_def Let_def)

lemma ulp_of_pos: "0 < ulp_of x"
  by (simp add: ulp_of_def pow2_pos)

lemma ulp_of_le:
  assumes "x \<noteq> 0"
  shows "ulp_of x \<le> max \<bar>x\<bar> 1"
proof (cases "ilog2 \<bar>x\<bar> \<le> - 1022")
  case True
  then have "ulp_of x = pow2 (- 1074)" by (simp add: ulp_of_def max_def)
  also have "\<dots> \<le> pow2 0" by (rule pow2_mono) simp
  also have "\<dots> = 1" by (simp add: pow2_def)
  finally show ?thesis by simp
next
  case False
  then have "ulp_of x = pow2 (ilog2 \<bar>x\<bar> - 52)" by (simp add: ulp_of_def max_def)
  also have "\<dots> \<le> pow2 (ilog2 \<bar>x\<bar>)" by (rule pow2_mono) simp
  also have "\<dots> \<le> \<bar>x\<bar>" using assms by (simp add: pow2_ilog2_le)
  finally show ?thesis by simp
qed

lemma rounded_close:
  "\<bar>of_int (round_half_even (x / ulp_of x)) * ulp_of x - x\<bar> \<le> ulp_of x / 2"
proof -
  let ?u = "ulp_of x"
  let ?k = "of_int (round_half_even (x / ?u)) :: rat"
  have u: "0 < ?u" by (rule ulp_of_pos)
  from round_half_even_bounds[of "x / ?u"]
  have "\<bar>?k - x / ?u\<bar> \<le> 1 / 2" by linarith
  then have "\<bar>?k - x / ?u\<bar> * ?u \<le> 1 / 2 * ?u" using u by (simp only: mult_le_cancel_right_pos)
  moreover have "\<bar>?k - x / ?u\<bar> * ?u = \<bar>(?k - x / ?u) * ?u\<bar>"
    using u by (simp add: abs_mult)
  moreover have "(?k - x / ?u) * ?u = ?k * ?u - x"
    using u by (simp add: left_diff_distrib)
  ultimately show ?thesis by simp
qed

lemma round_double_finite:
  assumes "\<bar>x\<bar> \<le> 2 ^ 1023"
  shows "\<exists>r. round_double x = Fl r \<and> \<bar>r - x\<bar> \<le> ulp_of x / 2"
proof (cases "x = 0")
  case True
  then show ?thesis using ulp_of_pos[of 0] by (simp add: round_double_def)
next
  case False
  let ?r = "of_int (round_half_even (x / ulp_of x)) * ulp_of x"
  have c: "\<bar>?r - x\<bar> \<le> ulp_of x / 2" by (rule rounded_close)
  have "ulp_of x \<le> max \<bar>x\<bar> 1" using False by (rule ulp_of_le)
  also have "\<dots> \<le> 2 ^ 1023" using assms by simp
  finally have "\<bar>?r\<bar> \<le> 2 ^ 1023 + 2 ^ 1023 / 2" using c assms by linarith
  then have "\<not> 2 ^ 1024 \<le> ?r" "\<not> ?r \<le> - (2 ^ 1024)" by simp_all
  then have "round_double x = Fl ?r" using False by (simp add: round_double_unfold Let_def)
  then show ?thesis using c by simp
qed

lemma round_double_nonneg:
  assumes "0 \<le> x"
  shows "round_double x = PInf \<or> (\<exists>r. round_double x = Fl r \<and> 0 \<le> r)"
proof (cases "x = 0")
  case True
  then show ?thesis by (simp add: round_double_def)
next
  case False
  let ?r = "of_int (round_half_even (x / ulp_of x)) * ulp_of x"
  have "of_int 0 \<le> x / ulp_of x" using assms ulp_of_pos[of x] by simp
  then have "0 \<le> round_half_even (x / ulp_of x)" by (rule round_half_even_mono_int)
  then have "0 \<le> ?r" using ulp_of_pos[of x] by simp
  then show ?thesis using False by (simp add: round_double_unfold Let_def)
qed

lemma round_double_overflow:
  assumes "2 ^ 1024 \<le> x"
  shows "round_double x = PInf"
proof -
  have "(0::rat) < 2 ^ 1024" by simp
  then have xpos: "0 < x" using assms by linarith
  then have x0: "0 < x" "x \<noteq> 0" "\<bar>x\<bar> = x" by simp_all
  let ?e = "max (ilog2 x) (- 1022)"
  let ?u = "ulp_of x"
  let ?r = "of_int (round_half_even (x / ?u)) * ?u"
  have u: "?u = pow2 (?e - 52)" "0 < ?u" using x0 by (simp_all add: ulp_of_def pow2_pos)
  have "2 ^ 1024 \<le> ?r"
  proof (cases "?e \<le> 1076")
    case True
    have "pow2 (1076 - ?e) * ?u = pow2 1024"
      unfolding u(1) pow2_add[symmetric] by simp
    then have K: "pow2 (1076 - ?e) * ?u = 2 ^ 1024" by (simp add: pow2_def)
    have Ki: "pow2 (1076 - ?e) = of_int (2 ^ nat (1076 - ?e))"
      using True by (simp add: pow2_def)
    have "pow2 (1076 - ?e) * ?u \<le> x" using K assms by simp
    then have "pow2 (1076 - ?e) \<le> x / ?u" using u(2) by (simp add: pos_le_divide_eq)
    then have "2 ^ nat (1076 - ?e) \<le> round_half_even (x / ?u)"
      unfolding Ki by (rule round_half_even_mono_int)
    then have "(of_int (2 ^ nat (1076 - ?e)) :: rat) \<le> of_int (round_half_even (x / ?u))"
      by (simp only: of_int_le_iff)
    then have "pow2 (1076 - ?e) * ?u \<le> ?r"
      unfolding Ki using u(2) by (simp only: mult_le_cancel_right_pos)
    then show ?thesis using K by simp
  next
    case False
    then have e: "?e = ilog2 x" "1077 \<le> ilog2 x" by linarith+
    have "?u \<le> pow2 (ilog2 x)" unfolding u(1) e(1) by (rule pow2_mono) simp
    also have px: "pow2 (ilog2 x) \<le> x" using x0(1) by (rule pow2_ilog2_le)
    finally have ux: "?u \<le> x" .
    have "pow2 1077 \<le> pow2 (ilog2 x)" using e(2) by (rule pow2_mono)
    then have big: "2 ^ 1077 \<le> x" using px by (simp add: pow2_def)
    from rounded_close[of x] have "x - ?u / 2 \<le> ?r" by linarith
    then have "x / 2 \<le> ?r" using ux by linarith
    moreover have "(2::rat) ^ 1024 \<le> 2 ^ 1077 / 2" by simp
    ultimately show ?thesis using big by linarith
  qed
  then show ?thesis using x0 by (simp add: round_double_unfold Let_def)
qed

lemma round_double_int:
  assumes "\<bar>n\<bar> < 2 ^ 53"
  shows "round_double (of_int n) = Fl (of_int n)"
proof (cases "n = 0")
  case True
  then show ?thesis by (simp add: round_double_def)
next
  case False
  let ?x = "of_int n :: rat"
  have ax: "\<bar>?x\<bar> = of_int \<bar>n\<bar>" by simp
  have n1: "0 < \<bar>n\<bar>" using False by simp
  then have "1 \<le> \<bar>n\<bar>" by linarith
  then have "(of_int 1 :: rat) \<le> of_int \<bar>n\<bar>" by (simp only: of_int_le_iff)
  then have x1: "1 \<le> (of_int \<bar>n\<bar> :: rat)" by simp
  let ?b = "bit_length \<bar>n\<bar>"
  from bit_length_bounds[OF n1] have b: "1 \<le> ?b" "2 ^ nat (?b - 1) \<le> \<bar>n\<bar>" by auto
  have fl: "\<lfloor>of_int \<bar>n\<bar> :: rat\<rfloor> = \<bar>n\<bar>" by (rule floor_of_int)
  have il: "ilog2 \<bar>?x\<bar> = ?b - 1" unfolding ax using x1 by (simp only: ilog2_def fl if_True)
  have lt: "(2::int) ^ nat (?b - 1) < 2 ^ 53" using b(2) assms by linarith
  have one: "(1::int) < 2" by simp
  have "nat (?b - 1) < 53" by (rule power_less_imp_less_exp[OF one lt])
  then have b53: "?b \<le> 53" by linarith
  let ?m = "nat (53 - ?b)"
  have u: "ulp_of ?x = 1 / 2 ^ ?m"
    using b b53 by (simp add: ulp_of_def il max_def pow2_def)
  have "?x / ulp_of ?x = of_int (n * 2 ^ ?m)" unfolding u by simp
  then have "round_half_even (?x / ulp_of ?x) = n * 2 ^ ?m"
    by (simp only: round_half_even_of_int)
  then have r: "of_int (round_half_even (?x / ulp_of ?x)) * ulp_of ?x = ?x"
    unfolding u by simp
  have "\<bar>?x\<bar> < 2 ^ 53" unfolding ax using assms by (metis of_int_less_numeral_power_cancel_iff)
  moreover have "(2::rat) ^ 53 < 2 ^ 1024" by simp
  ultimately have "\<not> 2 ^ 1024 \<le> ?x" "\<not> ?x \<le> - (2 ^ 1024)" by linarith+
  then show ?thesis using False by (simp add: round_double_unfold[of ?x] r Let_def)
qed


lemma pow2_neg_Suc: "pow2 (- int (Suc m)) = 1 / 2 ^ Suc m"
  by (simp add: pow2_def nat_add_distrib)

lemma bit_length_half: "2 \<le> n \<Longrightarrow> bit_length (n div 2) = bit_length n - 1"
  by (simp add: bit_length.simps[of n])

lemma round_double_half:
  assumes "2 \<le> \<bar>n\<bar>" "\<bar>n\<bar> < 2 ^ 53"
  shows "round_double (of_int n / 2) = Fl (of_int n / 2)"
proof -
  let ?x = "of_int n / 2 :: rat"
  have ne: "?x \<noteq> 0" using assms by auto
  have ax: "\<bar>?x\<bar> = of_int \<bar>n\<bar> / 2" by simp
  have "(of_int 2 :: rat) \<le> of_int \<bar>n\<bar>" using assms(1) by (simp only: of_int_le_iff)
  then have x1: "1 \<le> (of_int \<bar>n\<bar> / 2 :: rat)" by simp
  have fl: "\<lfloor>of_int \<bar>n\<bar> / 2 :: rat\<rfloor> = \<bar>n\<bar> div 2"
    using floor_divide_of_int_eq[of "\<bar>n\<bar>" 2, where ?'a = rat] by simp
  let ?b = "bit_length \<bar>n\<bar>"
  have n1: "0 < \<bar>n\<bar>" using assms by linarith
  from bit_length_bounds[OF n1] have b: "1 \<le> ?b" "2 ^ nat (?b - 1) \<le> \<bar>n\<bar>" by auto
  have il: "ilog2 \<bar>?x\<bar> = ?b - 2"
    unfolding ax using x1 by (simp only: ilog2_def fl if_True bit_length_half[OF assms(1)])
  have lt: "(2::int) ^ nat (?b - 1) < 2 ^ 53" using b(2) assms by linarith
  have one: "(1::int) < 2" by simp
  have "nat (?b - 1) < 53" by (rule power_less_imp_less_exp[OF one lt])
  then have b53: "?b \<le> 53" by linarith
  have "(2::int) ^ 1 \<le> \<bar>n\<bar>" using assms by simp
  moreover have "\<bar>n\<bar> < 2 ^ nat ?b" using bit_length_bounds[OF n1] by simp
  ultimately have "(2::int) ^ 1 < 2 ^ nat ?b" by linarith
  then have "1 < nat ?b" by (rule power_less_imp_less_exp[OF one])
  then have b2: "2 \<le> ?b" by linarith
  let ?m = "nat (53 - ?b)"
  have u: "ulp_of ?x = 1 / 2 ^ Suc ?m"
  proof -
    have "max (?b - 2) (- 1022) - 52 = - int (Suc ?m)" using b2 b53 by simp
    then have "ulp_of ?x = pow2 (- int (Suc ?m))" by (simp only: ulp_of_def il)
    then show ?thesis by (simp only: pow2_neg_Suc)
  qed
  have "?x / ulp_of ?x = of_int (n * 2 ^ ?m)" unfolding u by simp
  then have "round_half_even (?x / ulp_of ?x) = n * 2 ^ ?m"
    by (simp only: round_half_even_of_int)
  then have r: "of_int (round_half_even (?x / ulp_of ?x)) * ulp_of ?x = ?x"
    unfolding u by simp
  have "(of_int \<bar>n\<bar> :: rat) < 2 ^ 53" using assms(2) by (metis of_int_less_numeral_power_cancel_iff)
  then have "\<bar>?x\<bar> < 2 ^ 53" unfolding ax by linarith
  moreover have "(2::rat) ^ 53 < 2 ^ 1024" by simp
  ultimately have "\<not> 2 ^ 1024 \<le> ?x" "\<not> ?x \<le> - (2 ^ 1024)" by linarith+
  then show ?thesis unfolding round_double_unfold[OF ne] Let_def r by (simp only: if_False)
qed

lemma round_double_3_2: "round_double (3 / 2) = Fl (3 / 2)"
  using round_double_half[of 3] by simp

lemma round_double_numeral: "round_double 2 = Fl 2" "round_double 4 = Fl 4" "round_double 1 = Fl 1"
  using round_double_int[of 2] round_double_int[of 4] round_double_int[of 1] by simp_all

section \<open>Paragraph grouping\<close>






lemma as_dict_gets [simp]:
  "get_start (as_dict t) = ts_start t" "get_end (as_dict t) = ts_end t" "get_text (as_dict t) = ts_text t"
  by (simp_all add: as_dict_def get_start_def get_end_def get_text_def)

lemma float_gt_irrefl: "\<not> float_gt a a"
  by (cases a) auto

lemma policy_step_skip: "strip (ts_text seg) = [] \<Longrightarrow> policy_step gap st seg = st"
  by (simp add: policy_step_def)

lemma policy_step_take:
  "strip (ts_text seg) \<noteq> [] \<Longrightarrow>
   policy_step gap \<lparr>buffer = cur, lastEnd = le, out = ps\<rparr> seg =
     (if cur \<noteq> [] \<and> float_gt (float_sub (ts_start seg) le) gap
      then \<lparr>buffer = [ts_text seg], lastEnd = ts_end seg, out = ps @ [join '' '' cur]\<rparr>
      else \<lparr>buffer = cur @ [ts_text seg], lastEnd = ts_end seg, out = ps\<rparr>)"
  by (simp add: policy_step_def close_paragraph_def)

lemma paragraph_loop_policy:
  assumes "\<forall>s \<in> set segs. strip (ts_text s) = [] \<or> strip (ts_text s) = ts_text s"
  shows "paragraph_loop gap (map as_dict segs) ps cur le =
    (let st = foldl (policy_step gap) \<lparr>buffer = cur, lastEnd = le, out = ps\<rparr> segs
     in (out st, buffer st))"
  using assms
proof (induction segs arbitrary: ps cur le)
  case Nil
  then show ?case by simp
next
  case (Cons seg rest)
  then have IH: "\<And>ps cur le. paragraph_loop gap (map as_dict rest) ps cur le =
    (let st = foldl (policy_step gap) \<lparr>buffer = cur, lastEnd = le, out = ps\<rparr> rest
     in (out st, buffer st))"
    by simp
  from Cons.prems have t: "strip (ts_text seg) = [] \<or> strip (ts_text seg) = ts_text seg"
    by simp
  show ?case
  proof (cases "strip (ts_text seg) = []")
    case True
    then show ?thesis by (simp add: IH policy_step_skip)
  next
    case False
    with t have "strip (ts_text seg) = ts_text seg" by simp
    then show ?thesis using False
      by (simp add: IH policy_step_take)
  qed
qed

text \<open>
  Claim C3. On timed segments whose text is trimmed (or empty after trimming), the
  paragraphs computed by the loop of \<open>generate_markdown\<close> are those of the reference
  policy, for every threshold. A gap equal to the threshold does not start a paragraph:
  two segments with text whose gap is the threshold make one paragraph.
\<close>

theorem segmenter_refines_policy:
  "((\<forall>s \<in> set segs. strip (ts_text s) = [] \<or> strip (ts_text s) = ts_text s) \<longrightarrow>
      group_paragraphs threshold (map as_dict segs) = reference_policy segs threshold) \<and>
   (strip (ts_text a) \<noteq> [] \<and> strip (ts_text b) \<noteq> [] \<and>
    float_sub (ts_start b) (ts_end a) = threshold \<longrightarrow>
      group_paragraphs threshold [as_dict a, as_dict b] =
        [strip (ts_text a) @ '' '' @ strip (ts_text b)])"
proof (intro conjI impI)
  assume "\<forall>s \<in> set segs. strip (ts_text s) = [] \<or> strip (ts_text s) = ts_text s"
  then show "group_paragraphs threshold (map as_dict segs) = reference_policy segs threshold"
    by (simp add: group_paragraphs_def reference_policy_def paragraph_loop_policy Let_def
        close_paragraph_def)
next
  assume "strip (ts_text a) \<noteq> [] \<and> strip (ts_text b) \<noteq> [] \<and>
    float_sub (ts_start b) (ts_end a) = threshold"
  then show "group_paragraphs threshold [as_dict a, as_dict b] =
        [strip (ts_text a) @ '' '' @ strip (ts_text b)]"
    by (simp add: group_paragraphs_def Let_def float_gt_irrefl)
qed

lemma float_sub_Fl: "float_sub (Fl a) (Fl b) = round_double (a - b)"
  by (simp add: float_sub_def)

lemma strip_Hello: "strip ''Hello'' = ''Hello''"
  by code_simp

lemma strip_world: "strip ''world'' = ''world''"
  by code_simp

lemma strip_later: "strip ''later'' = ''later''"
  by code_simp

theorem segmenter_refines_policy_witness:
  "strip (ts_text seg_hello) = ts_text seg_hello \<and>
   strip (ts_text seg_world) = ts_text seg_world \<and>
   strip (ts_text seg_later) = ts_text seg_later \<and>
   group_paragraphs (Fl (3 / 2)) (map as_dict [seg_hello, seg_world, seg_later]) =
     reference_policy [seg_hello, seg_world, seg_later] (Fl (3 / 2)) \<and>
   strip (ts_text seg_world) \<noteq> [] \<and> strip (ts_text seg_later) \<noteq> [] \<and>
   float_sub (ts_start seg_later) (ts_end seg_world) = Fl (3 / 2) \<and>
   group_paragraphs (Fl (3 / 2)) [as_dict seg_world, as_dict seg_later] = [''world later'']"
  using segmenter_refines_policy [of "[seg_hello, seg_world, seg_later]" "Fl (3 / 2)" seg_world seg_later]
  by (simp add: seg_hello_def seg_world_def seg_later_def strip_Hello strip_world strip_later
      float_sub_Fl round_double_3_2)

section \<open>Rendering the document\<close>

lemma format_time_finite: "is_finite x \<Longrightarrow> \<exists>t. format_time x b = Inr t"
  by (cases x) (simp_all add: is_finite_def format_time_def Let_def)

lemma format_timestamp_finite: "is_finite x \<Longrightarrow> format_timestamp x = Inr (clock_bracketed x)"
  using format_time_finite[of x True] by (auto simp: clock_bracketed_def format_timestamp_def)

lemma format_duration_finite: "is_finite x \<Longrightarrow> format_duration x = Inr (clock_plain x)"
  using format_time_finite[of x False] by (auto simp: clock_plain_def format_duration_def)

lemma timestamp_loop_lines:
  "(\<forall>seg \<in> set segs. strip (get_text seg) \<noteq> [] \<longrightarrow> is_finite (get_start seg)) \<Longrightarrow>
   timestamp_loop segs lines = Inr (lines @ concat (map timestamped_lines segs))"
proof (induction segs arbitrary: lines)
  case Nil
  then show ?case by simp
next
  case (Cons seg rest)
  show ?case
  proof (cases "strip (get_text seg) = []")
    case True
    then show ?thesis using Cons by (simp add: timestamped_lines_def)
  next
    case False
    then have "is_finite (get_start seg)" using Cons.prems by simp
    then have "format_timestamp (get_start seg) = Inr (clock_bracketed (get_start seg))"
      by (rule format_timestamp_finite)
    then show ?thesis using False Cons by (simp add: timestamped_lines_def)
  qed
qed

lemma paragraph_lines_eq: "paragraph_lines ps lines = lines @ concat (map (\<lambda>p. [p, []]) ps)"
  by (induction ps arbitrary: lines) simp_all

lemma generate_markdown_head:
  assumes "finite_duration info"
  shows "generate_markdown info tr url ts today =
    (let lines = document_head info url today;
         segs = (case segments tr of None \<Rightarrow> [] | Some v \<Rightarrow> v)
     in if ts then (case timestamp_loop segs lines of Inl e \<Rightarrow> Inl e
                    | Inr lines' \<Rightarrow> Inr (join ''\<newline>'' lines'))
        else Inr (join ''\<newline>'' (paragraph_lines (group_paragraphs PARAGRAPH_GAP_SECONDS segs) lines)))"
proof -
  have "is_finite (case duration info of None \<Rightarrow> Fl 0 | Some d \<Rightarrow> d)"
    using assms by (simp add: finite_duration_def is_finite_def split: option.splits)
  then show ?thesis
    by (simp add: generate_markdown_def document_head_def format_duration_finite Let_def)
qed

lemma format_timestamp_0: "format_timestamp (Fl 0) = Inr ''[0:00]''" by code_simp
lemma format_timestamp_2: "format_timestamp (Fl 2) = Inr ''[0:02]''" by code_simp
lemma format_duration_0: "format_duration (Fl 0) = Inr ''0:00''" by code_simp

text \<open>
  Claim C4. With \<open>include_timestamps\<close>, the document is its head followed, for each
  segment in order, by the line \<open>[clock] text\<close> and an empty line when the trimmed text is
  non-empty, and by nothing when it is empty. The start times of the segments with text
  and the duration are finite numbers. The two segments of the specification's example
  give the lines \<open>[0:00] Hello\<close> and \<open>[0:02] world\<close>.
\<close>

theorem timestamped_rendering:
  "(finite_duration info \<and>
    (\<forall>seg \<in> set segs. strip (get_text seg) \<noteq> [] \<longrightarrow> is_finite (get_start seg)) \<longrightarrow>
      generate_markdown info \<lparr>segments = Some segs\<rparr> url True today =
        Inr (join ''\<newline>'' (document_head info url today @ concat (map timestamped_lines segs)))) \<and>
   concat (map timestamped_lines [as_dict seg_hello, as_dict seg_world]) =
     [''[0:00] Hello'', [], ''[0:02] world'', []]"
proof (intro conjI impI)
  assume a: "finite_duration info \<and>
    (\<forall>seg \<in> set segs. strip (get_text seg) \<noteq> [] \<longrightarrow> is_finite (get_start seg))"
  then show "generate_markdown info \<lparr>segments = Some segs\<rparr> url True today =
        Inr (join ''\<newline>'' (document_head info url today @ concat (map timestamped_lines segs)))"
    by (simp add: generate_markdown_head timestamp_loop_lines Let_def)
next
  show "concat (map timestamped_lines [as_dict seg_hello, as_dict seg_world]) =
     [''[0:00] Hello'', [], ''[0:02] world'', []]"
    by (simp add: timestamped_lines_def seg_hello_def seg_world_def strip_Hello strip_world
        clock_bracketed_def format_timestamp_0 format_timestamp_2)
qed

theorem timestamped_rendering_witness:
  "finite_duration info_none \<and>
   is_finite (get_start (as_dict seg_hello)) \<and> is_finite (get_start (as_dict seg_world)) \<and>
   generate_markdown info_none \<lparr>segments = Some [as_dict seg_hello, as_dict seg_world]\<rparr>
       ''u'' True ''2024-01-01'' =
     Inr (join ''\<newline>'' [''# Transcript: Untitled Video'', [], ''**Source:** u'', ''**Duration:** 0:00'',
        ''**Transcribed:** 2024-01-01'', [], ''---'', [], ''## Transcript'', [],
        ''[0:00] Hello'', [], ''[0:02] world'', []])"
  using timestamped_rendering [of info_none "[as_dict seg_hello, as_dict seg_world]" "''u''" "''2024-01-01''"]
  by (simp add: info_none_def finite_duration_def seg_hello_def seg_world_def is_finite_def
      document_head_def header_lines_def clock_plain_def format_duration_0)

text \<open>
  Claim C6. With no segments (an empty list, or no \<open>segments\<close> key) and a finite or
  absent duration, rendering succeeds in both modes and the document is its head alone,
  whose last two lines are the transcript heading and an empty line.
\<close>

theorem empty_transcript:
  "(finite_duration info \<longrightarrow>
      generate_markdown info \<lparr>segments = Some []\<rparr> url ts today =
        Inr (join ''\<newline>'' (document_head info url today)) \<and>
      generate_markdown info \<lparr>segments = None\<rparr> url ts today =
        Inr (join ''\<newline>'' (document_head info url today))) \<and>
   drop 8 (document_head info url today) = [''## Transcript'', []]"
  by (simp add: generate_markdown_head Let_def group_paragraphs_def document_head_def
      header_lines_def)

theorem empty_transcript_witness:
  "finite_duration info_none \<and>
   generate_markdown info_none \<lparr>segments = Some []\<rparr> ''u'' False ''2024-01-01'' =
     Inr (join ''\<newline>'' [''# Transcript: Untitled Video'', [], ''**Source:** u'', ''**Duration:** 0:00'',
        ''**Transcribed:** 2024-01-01'', [], ''---'', [], ''## Transcript'', []])"
  using empty_transcript [of info_none "''u''" False "''2024-01-01''"]
  by (simp add: info_none_def finite_duration_def document_head_def header_lines_def
      clock_plain_def format_duration_0)

text \<open>
  Claim C7. An absent title renders as the title \<open>Untitled Video\<close> does and an absent
  duration as the duration 0 does, which prints \<open>0:00\<close>; with both absent and no
  segments the document is the head with these defaults.
\<close>

theorem metadata_defaults:
  "generate_markdown (info\<lparr>title := None\<rparr>) tr url ts today =
     generate_markdown (info\<lparr>title := Some ''Untitled Video''\<rparr>) tr url ts today \<and>
   generate_markdown (info\<lparr>duration := None\<rparr>) tr url ts today =
     generate_markdown (info\<lparr>duration := Some (Fl 0)\<rparr>) tr url ts today \<and>
   format_duration (Fl 0) = Inr ''0:00'' \<and>
   generate_markdown \<lparr>title = None, duration = None\<rparr> \<lparr>segments = Some []\<rparr> url ts today =
     Inr (join ''\<newline>'' [''# Transcript: Untitled Video'', [], ''**Source:** '' @ url,
        ''**Duration:** 0:00'', ''**Transcribed:** '' @ today, [], ''---'', [], ''## Transcript'', []])"
  by (simp add: generate_markdown_def format_duration_0 Let_def header_lines_def group_paragraphs_def)

section \<open>Facts about the string operations\<close>

lemma split_nonempty: "split sep s \<noteq> []"
  by (cases s) (auto split: list.splits)

lemma split_unfold:
  "s \<noteq> [] \<Longrightarrow> split sep s =
    (if sep \<noteq> [] \<and> take (length sep) s = sep
     then [] # split sep (drop (length sep) s)
     else (case split sep (tl s) of r # rs \<Rightarrow> (hd s # r) # rs))"
  using split_nonempty[of sep "tl s"] by (cases s) (auto split: list.splits)

lemma take_sep_marker:
  assumes "take (length (p @ m # q)) s = p @ m # q"
  shows "length p < length s \<and> s ! length p = m"
proof -
  have l: "length p < length (take (length (p @ m # q)) s)" unfolding assms by simp
  then have "length p < length s" by simp
  moreover have "take (length (p @ m # q)) s ! length p = s ! length p"
    using l by simp
  ultimately show ?thesis unfolding assms by simp
qed

lemma split_none: "m \<notin> set s \<Longrightarrow> split (p @ m # q) s = [s]"
proof (induction s)
  case Nil
  then show ?case by simp
next
  case (Cons c cs)
  have "take (length (p @ m # q)) (c # cs) \<noteq> p @ m # q"
  proof
    assume "take (length (p @ m # q)) (c # cs) = p @ m # q"
    from take_sep_marker[OF this] have "m \<in> set (c # cs)" by (metis nth_mem)
    with Cons.prems show False by simp
  qed
  then show ?case using Cons by simp
qed

lemma split_first:
  assumes "m \<notin> set a" "m \<notin> set p"
  shows "split (p @ m # q) (a @ p @ m # q @ b) = a # split (p @ m # q) b"
  using assms(1)
proof (induction a)
  case Nil
  have "split (p @ m # q) ((p @ m # q) @ b) = [] # split (p @ m # q) b"
    by (subst split_unfold) simp_all
  then show ?case by simp
next
  case (Cons x a)
  let ?s = "(x # a) @ p @ m # q @ b"
  have "take (length (p @ m # q)) ?s \<noteq> p @ m # q"
  proof
    assume "take (length (p @ m # q)) ?s = p @ m # q"
    from take_sep_marker[OF this] have m: "?s ! length p = m" by simp
    show False
    proof (cases "length p < length (x # a)")
      case True
      then have "?s ! length p = (x # a) ! length p" by (simp only: nth_append if_True)
      with m True have "m \<in> set (x # a)" by (metis nth_mem)
      with Cons.prems show False by simp
    next
      case False
      then have "?s ! length p = (p @ m # q @ b) ! (length p - length (x # a))"
        by (simp only: nth_append if_False)
      moreover have "length p - length (x # a) < length p" using False by simp
      ultimately have "?s ! length p = p ! (length p - length (x # a))"
        by (simp add: nth_append)
      with m \<open>length p - length (x # a) < length p\<close> have "m \<in> set p" by (metis nth_mem)
      with assms(2) show False by simp
    qed
  qed
  moreover have "split (p @ m # q) (a @ p @ m # q @ b) = a # split (p @ m # q) b"
    using Cons by simp
  ultimately show ?case by simp
qed

lemma split_char_first: "c \<notin> set a \<Longrightarrow> split [c] (a @ c # b) = a # split [c] b"
  using split_first[of c a "[]" "[]" b] by simp

lemma split_char_none: "c \<notin> set s \<Longrightarrow> split [c] s = [s]"
  using split_none[of c s "[]" "[]"] by simp

lemma split_lines_join:
  "ls \<noteq> [] \<Longrightarrow> \<forall>l \<in> set ls. CHR 0x0A \<notin> set l \<Longrightarrow> split [CHR 0x0A] (join [CHR 0x0A] ls) = ls"
proof (induction "[CHR 0x0A]" ls rule: join.induct)
  case 1
  then show ?case by simp
next
  case (2 x)
  then show ?case by (simp add: split_char_none)
next
  case (3 x y ys)
  then show ?case by (simp add: split_char_first)
qed

lemma dropWhile_hd: "xs \<noteq> [] \<Longrightarrow> \<not> P (hd xs) \<Longrightarrow> dropWhile P xs = xs"
  by (cases xs) simp_all

lemma strip_tight:
  assumes "s \<noteq> []" "\<not> isspace (hd s)" "\<not> isspace (last s)"
  shows "strip s = s"
proof -
  have a: "dropWhile isspace s = s" using assms by (cases s) simp_all
  have "rev s \<noteq> []" "\<not> isspace (hd (rev s))" using assms by (simp_all add: hd_rev)
  then have "dropWhile isspace (rev s) = rev s" by (rule dropWhile_hd)
  then show ?thesis by (simp add: strip_def a)
qed

lemma strip_pad:
  assumes "s \<noteq> []" "\<not> isspace (hd s)" "\<not> isspace (last s)"
    and "\<forall>c \<in> set pre. isspace c" "\<forall>c \<in> set post. isspace c"
  shows "strip (pre @ s @ post) = s"
proof -
  have a: "dropWhile isspace s = s" using assms by (cases s) simp_all
  have "dropWhile isspace (pre @ s @ post) = dropWhile isspace (s @ post)"
    using assms(4) by (simp add: dropWhile_append)
  also have "\<dots> = s @ post" using assms(1,2) by (cases s) simp_all
  finally have l: "dropWhile isspace (pre @ s @ post) = s @ post" .
  have "rev s \<noteq> []" "\<not> isspace (hd (rev s))" using assms by (simp_all add: hd_rev)
  then have r: "dropWhile isspace (rev s) = rev s" by (rule dropWhile_hd)
  have "dropWhile isspace (rev (s @ post)) = dropWhile isspace (rev s)"
    using assms(5) by (simp add: dropWhile_append)
  then show ?thesis by (simp add: strip_def l r)
qed

section \<open>Parsing a timestamp\<close>

lemma not_isdigit:
  "\<not> isdigit CHR ''+''" "\<not> isdigit CHR ''-''" "\<not> isdigit CHR ''_''" "\<not> isdigit CHR '':''"
  "\<not> isdigit CHR '',''" "\<not> isdigit CHR 0x0A" "\<not> isdigit CHR '' ''" "\<not> isdigit CHR ''>''"
  by (simp_all add: isdigit_def)

lemma isdigit_not_space: "isdigit c \<Longrightarrow> \<not> c_isspace c \<and> \<not> isspace c"
  by (auto simp: isdigit_def c_isspace_def isspace_def)

lemma isdigit_ascii: "isdigit c \<Longrightarrow> of_char c \<notin> {133, 160 :: nat}"
  by (auto simp: isdigit_def)

lemma digit_val_range: "isdigit c \<Longrightarrow> 0 \<le> digit_val c \<and> digit_val c \<le> 9"
proof -
  assume "isdigit c"
  then have "48 \<le> (of_char c :: nat)" "(of_char c :: nat) \<le> 57" by (simp_all add: isdigit_def)
  then have "48 \<le> int (of_char c)" "int (of_char c) \<le> 57" by linarith+
  then show ?thesis by (simp add: digit_val_def of_nat_of_char)
qed

lemma digits_val_snoc: "digits_val (s @ [c]) = 10 * digits_val s + digit_val c"
  by (simp add: digits_val_def)

lemma digits_val_range:
  "list_all isdigit s \<Longrightarrow> 0 \<le> digits_val s \<and> digits_val s < 10 ^ length s"
proof (induction s rule: rev_induct)
  case Nil
  then show ?case by (simp add: digits_val_def)
next
  case (snoc c s)
  then have "0 \<le> digits_val s" "digits_val s + 1 \<le> 10 ^ length s" "0 \<le> digit_val c" "digit_val c \<le> 9"
    using digit_val_range[of c] by auto
  then show ?case by (simp add: digits_val_snoc)
qed

lemma py_int_digits:
  assumes "s \<noteq> []" "list_all isdigit s" "length s \<le> 4300"
  shows "py_int s = Inr (digits_val s)"
proof -
  have all: "\<And>c. c \<in> set s \<Longrightarrow> isdigit c" using assms(2) by (simp add: list_all_iff)
  have m: "map (\<lambda>c. if of_char c \<in> {133, 160 :: nat} then CHR '' '' else c) s = s"
  proof (rule map_idI)
    fix c assume "c \<in> set s"
    then have "of_char c \<notin> {133, 160 :: nat}" using all isdigit_ascii by blast
    then show "(if of_char c \<in> {133, 160 :: nat} then CHR '' '' else c) = c" by simp
  qed
  have h: "isdigit (hd s)" "isdigit (last s)" using assms(1) all by simp_all
  have "\<not> c_isspace (hd s)" using h(1) isdigit_not_space by blast
  with assms(1) have d1: "dropWhile c_isspace s = s" by (rule dropWhile_hd)
  have "\<not> c_isspace (last s)" using h(2) isdigit_not_space by blast
  then have "rev s \<noteq> []" "\<not> c_isspace (hd (rev s))"
    using assms(1) by (simp_all add: hd_rev)
  then have d2: "dropWhile c_isspace (rev s) = rev s" by (rule dropWhile_hd)
  have sg: "hd s \<noteq> CHR ''+''" "hd s \<noteq> CHR ''-''" using h(1) not_isdigit by auto
  have u: "CHR ''_'' \<notin> set s" using all not_isdigit(3) by auto
  then have g: "split ''_'' s = [s]" by (simp add: split_char_none)
  have f: "filter (\<lambda>c. c \<noteq> CHR ''_'') s = s" using u by (auto simp: filter_id_conv)
  have ok: "digit_groups_ok s" using assms(1) all by (simp add: digit_groups_ok_def g)
  show ?thesis unfolding py_int_def m using assms(3) sg
    by (simp add: d1 d2 g f ok Let_def int_max_str_digits_def)
qed

lemma numeric_chars:
  assumes "numeric s"
  shows "CHR '','' \<notin> set s" "CHR '':'' \<notin> set s" "CHR ''-'' \<notin> set s" "CHR 0x0A \<notin> set s"
    "s \<noteq> []" "isdigit (hd s)" "isdigit (last s)"
  using assms not_isdigit by (auto simp: numeric_def list_all_iff)

lemma py_int_numeric: "numeric s \<Longrightarrow> py_int s = Inr (digits_val s)"
  by (simp add: numeric_def py_int_digits)

lemma split_time_part:
  assumes "numeric h" "numeric m" "numeric s"
  shows "split '':'' (h @ CHR '':'' # m @ CHR '':'' # s) = [h, m, s]"
proof -
  have "split '':'' (h @ CHR '':'' # (m @ CHR '':'' # s)) = h # split '':'' (m @ CHR '':'' # s)"
    using numeric_chars(2)[OF assms(1)] by (rule split_char_first)
  also have "split '':'' (m @ CHR '':'' # s) = m # split '':'' s"
    using numeric_chars(2)[OF assms(2)] by (rule split_char_first)
  also have "split '':'' s = [s]"
    using numeric_chars(2)[OF assms(3)] by (rule split_char_none)
  finally show ?thesis by simp
qed

lemma split_timestamp:
  assumes "numeric h" "numeric m" "numeric s" "numeric ms"
  shows "split '','' (srt_time h m s ms) = [h @ CHR '':'' # m @ CHR '':'' # s, ms]"
proof -
  have "CHR '','' \<notin> set (h @ '':'' @ m @ '':'' @ s)"
    using numeric_chars(1)[OF assms(1)] numeric_chars(1)[OF assms(2)] numeric_chars(1)[OF assms(3)]
    by simp
  then have "split '','' ((h @ '':'' @ m @ '':'' @ s) @ CHR '','' # ms) =
      (h @ '':'' @ m @ '':'' @ s) # split '','' ms"
    by (rule split_char_first)
  also have "split '','' ms = [ms]"
    using numeric_chars(1)[OF assms(4)] by (rule split_char_none)
  finally show ?thesis by (simp add: srt_time_def)
qed

lemma parse_srt_timestamp_numeric:
  assumes "numeric h" "numeric m" "numeric s" "numeric ms"
  shows "parse_srt_timestamp (srt_time h m s ms) =
    (case int_truediv (digits_val ms) 1000 of
       Inl e \<Rightarrow> Inl e
     | Inr fraction \<Rightarrow>
         (case float_of_int (digits_val h * 3600 + digits_val m * 60 + digits_val s) of
            Inl e \<Rightarrow> Inl e
          | Inr whole \<Rightarrow> Inr (float_add whole fraction)))"
  unfolding parse_srt_timestamp_def split_timestamp[OF assms] using assms
  by (simp add: split_time_part py_int_numeric)

lemma digit_field_numeric: "digit_field 2 s \<Longrightarrow> numeric s" "digit_field 3 s \<Longrightarrow> numeric s"
  by (auto simp: digit_field_def numeric_def)

lemma digit_field_range:
  "digit_field 2 s \<Longrightarrow> 0 \<le> digits_val s \<and> digits_val s \<le> 99"
  "digit_field 3 s \<Longrightarrow> 0 \<le> digits_val s \<and> digits_val s \<le> 999"
  using digits_val_range[of s] by (auto simp: digit_field_def)

lemma float_of_int_small: "\<bar>n\<bar> < 2 ^ 53 \<Longrightarrow> float_of_int n = Inr (Fl (of_int n))"
  by (simp add: float_of_int_def round_double_int)

lemma int_truediv_millis:
  assumes "0 \<le> n" "n \<le> 999"
  shows "int_truediv n 1000 = Inr (round_double (of_int n / 1000))"
proof -
  have "(of_int n :: rat) \<le> of_int 999" "(of_int 0 :: rat) \<le> of_int n"
    using assms by (simp_all only: of_int_le_iff)
  then have "\<bar>of_int n / 1000 :: rat\<bar> \<le> 1" by simp
  moreover have "(1::rat) \<le> 2 ^ 1023" by simp
  ultimately have "\<bar>of_int n / 1000 :: rat\<bar> \<le> 2 ^ 1023" by linarith
  from round_double_finite[OF this] obtain r where "round_double (of_int n / 1000) = Fl r"
    by blast
  then show ?thesis by (simp add: int_truediv_def)
qed

lemma parse_srt_timestamp_value:
  assumes "digit_field 2 h" "digit_field 2 m" "digit_field 2 s" "digit_field 3 ms"
  shows "parse_srt_timestamp (srt_time h m s ms) = Inr (time_value h m s ms)"
proof -
  note n = digit_field_numeric(1)[OF assms(1)] digit_field_numeric(1)[OF assms(2)]
    digit_field_numeric(1)[OF assms(3)] digit_field_numeric(2)[OF assms(4)]
  note r = digit_field_range(1)[OF assms(1)] digit_field_range(1)[OF assms(2)]
    digit_field_range(1)[OF assms(3)] digit_field_range(2)[OF assms(4)]
  have "\<bar>digits_val h * 3600 + digits_val m * 60 + digits_val s\<bar> < 2 ^ 53"
    using r by simp
  then have w: "float_of_int (digits_val h * 3600 + digits_val m * 60 + digits_val s) =
      Inr (Fl (of_int (digits_val h * 3600 + digits_val m * 60 + digits_val s)))"
    by (rule float_of_int_small)
  have f: "int_truediv (digits_val ms) 1000 = Inr (round_double (of_int (digits_val ms) / 1000))"
    using r(4) by (simp add: int_truediv_millis)
  show ?thesis
    unfolding parse_srt_timestamp_numeric[OF n] w f by (simp add: time_value_def seconds_of_def)
qed

section \<open>Parsing one caption block\<close>

lemma split_blank_step:
  assumes "CHR 0x0A \<notin> set l" "r \<noteq> []" "hd r \<noteq> CHR 0x0A"
  shows "split [CHR 0x0A, CHR 0x0A] (l @ CHR 0x0A # r) =
    (case split [CHR 0x0A, CHR 0x0A] r of x # xs \<Rightarrow> (l @ CHR 0x0A # x) # xs)"
  using assms(1)
proof (induction l)
  case Nil
  obtain c r' where r: "r = c # r'" using assms(2) by (cases r) auto
  then have "c \<noteq> CHR 0x0A" using assms(3) by simp
  then show ?case using split_nonempty[of "[CHR 0x0A, CHR 0x0A]" r] unfolding r
    by (auto split: list.splits)
next
  case (Cons x l)
  then have x: "x \<noteq> CHR 0x0A" and IH: "split [CHR 0x0A, CHR 0x0A] (l @ CHR 0x0A # r) =
    (case split [CHR 0x0A, CHR 0x0A] r of x # xs \<Rightarrow> (l @ CHR 0x0A # x) # xs)" by auto
  show ?case using x split_nonempty[of "[CHR 0x0A, CHR 0x0A]" r]
    by (simp add: IH split: list.splits)
qed

lemma join_Cons2: "ls \<noteq> [] \<Longrightarrow> join sep (l # ls) = l @ sep @ join sep ls"
  by (cases ls) simp_all

lemma join_nonempty:
  assumes "ls \<noteq> []" "hd ls \<noteq> []"
  shows "join sep ls \<noteq> [] \<and> hd (join sep ls) = hd (hd ls)"
proof -
  obtain l ls' where ls: "ls = l # ls'" using assms(1) by (cases ls) auto
  then have "l \<noteq> []" using assms(2) by simp
  then show ?thesis unfolding ls by (cases ls') simp_all
qed

lemma last_join:
  "ls \<noteq> [] \<Longrightarrow> last ls \<noteq> [] \<Longrightarrow> join sep ls \<noteq> [] \<and> last (join sep ls) = last (last ls)"
  by (induction sep ls rule: join.induct) auto

lemma split_blank_join:
  "ls \<noteq> [] \<Longrightarrow> \<forall>l \<in> set ls. l \<noteq> [] \<and> CHR 0x0A \<notin> set l \<Longrightarrow>
   split [CHR 0x0A, CHR 0x0A] (join [CHR 0x0A] ls) = [join [CHR 0x0A] ls]"
proof (induction "[CHR 0x0A]" ls rule: join.induct)
  case 1
  then show ?case by simp
next
  case (2 x)
  then show ?case using split_none[of "CHR 0x0A" x "[]" "[CHR 0x0A]"] by simp
next
  case (3 x y ys)
  let ?r = "join [CHR 0x0A] (y # ys)"
  have r: "?r \<noteq> []" "hd ?r = hd y" using 3(3) join_nonempty[of "y # ys" "[CHR 0x0A]"] by simp_all
  from 3(3) have y: "y \<noteq> []" "CHR 0x0A \<notin> set y" by simp_all
  then have "hd y \<noteq> CHR 0x0A" by (metis hd_in_set)
  then have "hd ?r \<noteq> CHR 0x0A" using r(2) by simp
  with r(1) have "split [CHR 0x0A, CHR 0x0A] (x @ CHR 0x0A # ?r) =
    (case split [CHR 0x0A, CHR 0x0A] ?r of a # xs \<Rightarrow> (x @ CHR 0x0A # a) # xs)"
    using 3(3) by (intro split_blank_step) simp_all
  moreover have "split [CHR 0x0A, CHR 0x0A] ?r = [?r]" using 3 by simp
  ultimately show ?case by simp
qed

lemma strip_nonempty:
  assumes "s \<noteq> []" "\<not> isspace (last s)"
  shows "strip s \<noteq> []"
proof -
  have "dropWhile isspace s \<noteq> []" using assms
    by (metis dropWhile_eq_Nil_conv last_in_set)
  moreover have "last (dropWhile isspace s) = last s"
    using assms by (metis calculation last_appendR takeWhile_dropWhile_id)
  ultimately have "rev (dropWhile isspace s) \<noteq> []" "\<not> isspace (hd (rev (dropWhile isspace s)))"
    using assms(2) by (simp_all add: hd_rev)
  then have "dropWhile isspace (rev (dropWhile isspace s)) = rev (dropWhile isspace s)"
    by (rule dropWhile_hd)
  then show ?thesis using \<open>dropWhile isspace s \<noteq> []\<close> by (simp add: strip_def)
qed

lemma blanks_chars:
  assumes "blanks w"
  shows "\<forall>c \<in> set w. isspace c" "CHR 0x0A \<notin> set w" "CHR ''>'' \<notin> set w"
proof -
  show "\<forall>c \<in> set w. isspace c" "CHR 0x0A \<notin> set w"
    using assms by (auto simp: blanks_def list_all_iff)
  have "\<not> isspace CHR ''>''" by (simp add: isspace_def)
  then show "CHR ''>'' \<notin> set w" using assms by (auto simp: blanks_def list_all_iff)
qed

lemma split_timing_line:
  assumes "stamp t1" "stamp t2" "blanks w1" "blanks w2"
  shows "split '' --> '' (timing_line t1 w1 w2 t2) = [t1 @ w1, w2 @ t2]"
proof -
  have a: "CHR ''>'' \<notin> set (t1 @ w1)" "CHR ''>'' \<notin> set (w2 @ t2)"
    using assms blanks_chars(3) by (auto simp: stamp_def)
  have p: "CHR ''>'' \<notin> set '' --''" by simp
  have "split ('' --'' @ CHR ''>'' # '' '') ((t1 @ w1) @ '' --'' @ CHR ''>'' # '' '' @ (w2 @ t2)) =
      (t1 @ w1) # split ('' --'' @ CHR ''>'' # '' '') (w2 @ t2)"
    using a(1) p by (rule split_first)
  moreover have "split ('' --'' @ CHR ''>'' # '' '') (w2 @ t2) = [w2 @ t2]"
    using a(2) by (rule split_none)
  ultimately show ?thesis by (simp add: timing_line_def)
qed

lemma strip_sides:
  assumes "stamp t1" "stamp t2" "blanks w1" "blanks w2"
  shows "strip (t1 @ w1) = t1" "strip (w2 @ t2) = t2"
proof -
  show "strip (t1 @ w1) = t1"
    using strip_pad[of t1 "[]" w1] assms blanks_chars(1) by (simp add: stamp_def)
  show "strip (w2 @ t2) = t2"
    using strip_pad[of t2 w2 "[]"] assms blanks_chars(1) by (simp add: stamp_def)
qed

lemma timing_line_line:
  assumes "stamp t1" "stamp t2" "blanks w1" "blanks w2"
  shows "timing_line t1 w1 w2 t2 \<noteq> []" "CHR 0x0A \<notin> set (timing_line t1 w1 w2 t2)"
  using assms blanks_chars(2) by (auto simp: timing_line_def stamp_def)

lemma parse_srt_try_block:
  assumes "text_lines texts" "stamp t1" "stamp t2" "blanks w1" "blanks w2"
  shows "parse_srt_try (idx # timing_line t1 w1 w2 t2 # texts) =
    (case parse_srt_timestamp t1 of
       Inl e \<Rightarrow> Inl e
     | Inr start \<Rightarrow>
         (case parse_srt_timestamp t2 of
            Inl e \<Rightarrow> Inl e
          | Inr end' \<Rightarrow>
              Inr (Some \<lparr>seg_start = Some start, seg_end = Some end',
                          seg_text = Some (strip (join '' '' texts))\<rparr>)))"
proof -
  have t: "texts \<noteq> []" "last texts \<noteq> []" "\<not> isspace (last (last texts))"
    using assms(1) by (auto simp: text_lines_def list_all_iff)
  from last_join[OF t(1,2), of "'' ''"] have "join '' '' texts \<noteq> []"
    "\<not> isspace (last (join '' '' texts))" using t(3) by simp_all
  then have ne: "strip (join '' '' texts) \<noteq> []" by (rule strip_nonempty)
  show ?thesis
    unfolding parse_srt_try_def
    by (simp add: split_timing_line[OF assms(2-5)] strip_sides[OF assms(2-5)] ne Let_def
        split: sum.splits)
qed

lemma parse_single_block:
  assumes "index_line idx" "text_lines texts" "stamp t1" "stamp t2" "blanks w1" "blanks w2"
    and "list_all isspace pre" "list_all isspace post"
  shows "parse_srt (pre @ caption_block idx (timing_line t1 w1 w2 t2) texts @ post) =
    (case parse_srt_timestamp t1 of
       Inl e \<Rightarrow> if e = ValueError \<or> e = IndexError then Inr [] else Inl e
     | Inr start \<Rightarrow>
         (case parse_srt_timestamp t2 of
            Inl e \<Rightarrow> if e = ValueError \<or> e = IndexError then Inr [] else Inl e
          | Inr end' \<Rightarrow>
              Inr [\<lparr>seg_start = Some start, seg_end = Some end',
                     seg_text = Some (strip (join '' '' texts))\<rparr>]))"
proof -
  let ?timing = "timing_line t1 w1 w2 t2"
  let ?lines = "idx # ?timing # texts"
  let ?block = "caption_block idx ?timing texts"
  have t: "texts \<noteq> []" "last texts \<noteq> []" "\<not> isspace (last (last texts))"
    "\<forall>l \<in> set texts. l \<noteq> [] \<and> CHR 0x0A \<notin> set l"
    using assms(2) by (auto simp: text_lines_def list_all_iff)
  have i: "idx \<noteq> []" "\<not> isspace (hd idx)" "CHR 0x0A \<notin> set idx"
    using assms(1) by (simp_all add: index_line_def)
  note tl = timing_line_line[OF assms(3-6)]
  have all: "\<forall>l \<in> set ?lines. l \<noteq> [] \<and> CHR 0x0A \<notin> set l" using t(4) i tl by simp
  have nl: "\<forall>l \<in> set ?lines. CHR 0x0A \<notin> set l" using all by blast
  have b: "?block = join [CHR 0x0A] ?lines" by (simp only: caption_block_def)
  have "?block \<noteq> [] \<and> hd ?block = hd idx"
    unfolding b using join_nonempty[of ?lines "[CHR 0x0A]"] i(1) by simp
  moreover have "last ?lines = last texts" using t(1) by simp
  then have "?block \<noteq> [] \<and> last ?block = last (last texts)"
    unfolding b using last_join[of ?lines "[CHR 0x0A]"] t(2) by simp
  ultimately have tight: "?block \<noteq> []" "\<not> isspace (hd ?block)" "\<not> isspace (last ?block)"
    using i(2) t(3) by simp_all
  have sp: "\<forall>c \<in> set pre. isspace c" "\<forall>c \<in> set post. isspace c"
    using assms(7,8) by (simp_all add: list_all_iff)
  have s1: "strip (pre @ ?block @ post) = ?block" using tight sp by (rule strip_pad)
  have s2: "strip ?block = ?block" using tight by (rule strip_tight)
  have blocks: "split [CHR 0x0A, CHR 0x0A] ?block = [?block]"
    unfolding b using all by (intro split_blank_join) simp_all
  have lines: "split [CHR 0x0A] ?block = ?lines"
    unfolding b using nl by (intro split_lines_join) simp_all
  have len: "3 \<le> length ?lines" using t(1) by (cases texts) simp_all
  show ?thesis
    unfolding parse_srt_def s1 blocks
    using len
    by (simp add: s2 lines parse_srt_try_block[OF assms(2-6)] del: join.simps
        split: sum.splits)
qed

lemma stamp_srt_time:
  assumes "numeric h" "numeric m" "numeric s" "numeric ms"
  shows "stamp (srt_time h m s ms)"
proof -
  have h: "h \<noteq> []" "isdigit (hd h)" using numeric_chars(5,6)[OF assms(1)] by simp_all
  have ms: "ms \<noteq> []" "isdigit (last ms)" using numeric_chars(5,7)[OF assms(4)] by simp_all
  have "hd (srt_time h m s ms) = hd h" "last (srt_time h m s ms) = last ms"
    using h(1) ms(1) by (simp_all add: srt_time_def)
  then have "\<not> isspace (hd (srt_time h m s ms))" "\<not> isspace (last (srt_time h m s ms))"
    using h(2) ms(2) isdigit_not_space by simp_all
  moreover have "\<And>x. numeric x \<Longrightarrow> CHR ''>'' \<notin> set x \<and> CHR 0x0A \<notin> set x"
    using not_isdigit by (auto simp: numeric_def list_all_iff)
  then have "CHR ''>'' \<notin> set (srt_time h m s ms)" "CHR 0x0A \<notin> set (srt_time h m s ms)"
    using assms by (auto simp: srt_time_def)
  ultimately show ?thesis using h(1) by (simp add: stamp_def srt_time_def)
qed

lemma stamp_fields:
  assumes "digit_field 2 h" "digit_field 2 m" "digit_field 2 s" "digit_field 3 ms"
  shows "stamp (srt_time h m s ms)"
  using assms by (intro stamp_srt_time digit_field_numeric)

lemma parse_block_value:
  assumes "index_line idx" "text_lines texts"
    and "digit_field 2 h1" "digit_field 2 m1" "digit_field 2 s1" "digit_field 3 ms1"
    and "digit_field 2 h2" "digit_field 2 m2" "digit_field 2 s2" "digit_field 3 ms2"
    and "blanks w1" "blanks w2" "list_all isspace pre" "list_all isspace post"
  shows "parse_srt (pre @ caption_block idx
            (timing_line (srt_time h1 m1 s1 ms1) w1 w2 (srt_time h2 m2 s2 ms2)) texts @ post) =
    Inr [\<lparr>seg_start = Some (time_value h1 m1 s1 ms1), seg_end = Some (time_value h2 m2 s2 ms2),
           seg_text = Some (strip (join '' '' texts))\<rparr>]"
  unfolding parse_single_block[OF assms(1,2) stamp_fields[OF assms(3-6)] stamp_fields[OF assms(7-10)]
      assms(11-14)]
  by (simp add: parse_srt_timestamp_value[OF assms(3-6)] parse_srt_timestamp_value[OF assms(7-10)])

lemma blanks_Nil: "blanks []"
  by (simp add: blanks_def)

text \<open>
  Claim C1. A single well-formed caption block (an index line, the timing line
  \<open>HH:MM:SS,mmm --> HH:MM:SS,mmm\<close> of two-digit and three-digit fields, and text lines),
  possibly with white space before and after it, parses to exactly one segment: its start
  and end are \<open>H*3600 + M*60 + S + ms/1000\<close> of the two timestamps, in Python's
  arithmetic, and its text is the text lines joined with single spaces and trimmed.
\<close>

theorem parse_well_formed_block:
  "index_line idx \<and> text_lines texts \<and>
   digit_field 2 h1 \<and> digit_field 2 m1 \<and> digit_field 2 s1 \<and> digit_field 3 ms1 \<and>
   digit_field 2 h2 \<and> digit_field 2 m2 \<and> digit_field 2 s2 \<and> digit_field 3 ms2 \<and>
   list_all isspace pre \<and> list_all isspace post \<longrightarrow>
   parse_srt (pre @ caption_block idx
       (srt_time h1 m1 s1 ms1 @ '' --> '' @ srt_time h2 m2 s2 ms2) texts @ post) =
     Inr [\<lparr>seg_start = Some (seconds_of (digits_val h1) (digits_val m1) (digits_val s1) (digits_val ms1)),
            seg_end = Some (seconds_of (digits_val h2) (digits_val m2) (digits_val s2) (digits_val ms2)),
            seg_text = Some (strip (join '' '' texts))\<rparr>]"
proof
  assume a: "index_line idx \<and> text_lines texts \<and>
   digit_field 2 h1 \<and> digit_field 2 m1 \<and> digit_field 2 s1 \<and> digit_field 3 ms1 \<and>
   digit_field 2 h2 \<and> digit_field 2 m2 \<and> digit_field 2 s2 \<and> digit_field 3 ms2 \<and>
   list_all isspace pre \<and> list_all isspace post"
  then have "parse_srt (pre @ caption_block idx
            (timing_line (srt_time h1 m1 s1 ms1) [] [] (srt_time h2 m2 s2 ms2)) texts @ post) =
    Inr [\<lparr>seg_start = Some (time_value h1 m1 s1 ms1), seg_end = Some (time_value h2 m2 s2 ms2),
           seg_text = Some (strip (join '' '' texts))\<rparr>]"
    by (intro parse_block_value blanks_Nil) simp_all
  then show "parse_srt (pre @ caption_block idx
       (srt_time h1 m1 s1 ms1 @ '' --> '' @ srt_time h2 m2 s2 ms2) texts @ post) =
     Inr [\<lparr>seg_start = Some (seconds_of (digits_val h1) (digits_val m1) (digits_val s1) (digits_val ms1)),
            seg_end = Some (seconds_of (digits_val h2) (digits_val m2) (digits_val s2) (digits_val ms2)),
            seg_text = Some (strip (join '' '' texts))\<rparr>]"
    by (simp add: timing_line_def time_value_def)
qed

lemma seconds_of_whole:
  "\<bar>H * 3600 + M * 60 + S\<bar> < 2 ^ 53 \<Longrightarrow> seconds_of H M S 0 = Fl (of_int (H * 3600 + M * 60 + S))"
  using round_double_int[of "H * 3600 + M * 60 + S"] by (simp add: seconds_of_def round_double_def)

lemma example_fields:
  "digit_field 2 ''00''" "digit_field 2 ''01''" "digit_field 2 ''02''" "digit_field 3 ''000''"
  "digits_val ''00'' = 0" "digits_val ''01'' = 1" "digits_val ''02'' = 2" "digits_val ''000'' = 0"
  by code_simp+

lemma example_lines:
  "index_line ''1''" "text_lines [''Hello'', ''world'']" "isspace CHR 0x0A"
  "strip ''Hello world'' = ''Hello world''"
  by code_simp+

theorem parse_well_formed_block_witness:
  "index_line ''1'' \<and> text_lines [''Hello'', ''world''] \<and>
   digit_field 2 ''00'' \<and> digit_field 2 ''01'' \<and> digit_field 2 ''02'' \<and> digit_field 3 ''000'' \<and>
   list_all isspace [] \<and> list_all isspace ''\<newline>'' \<and>
   parse_srt ''1\<newline>00:00:01,000 --> 00:01:02,000\<newline>Hello\<newline>world\<newline>'' =
     Inr [\<lparr>seg_start = Some (Fl 1), seg_end = Some (Fl 62), seg_text = Some ''Hello world''\<rparr>]"
  using parse_well_formed_block [of "''1''" "[''Hello'', ''world'']" "''00''" "''00''" "''01''" "''000''"
      "''00''" "''01''" "''02''" "''000''" "[]" "''\<newline>''"]
  by (simp add: example_fields example_lines seconds_of_whole caption_block_def srt_time_def)

text \<open>
  Claim C9. With extra white space \<open>w1\<close> before and \<open>w2\<close> after the separator
  \<open>" --> "\<close> of the timing line, the block still parses to its one segment, the same
  as without the extra white space.
\<close>

theorem timing_whitespace_tolerated:
  "index_line idx \<and> text_lines texts \<and>
   digit_field 2 h1 \<and> digit_field 2 m1 \<and> digit_field 2 s1 \<and> digit_field 3 ms1 \<and>
   digit_field 2 h2 \<and> digit_field 2 m2 \<and> digit_field 2 s2 \<and> digit_field 3 ms2 \<and>
   blanks w1 \<and> blanks w2 \<and> list_all isspace pre \<and> list_all isspace post \<longrightarrow>
   parse_srt (pre @ caption_block idx
       (srt_time h1 m1 s1 ms1 @ w1 @ '' --> '' @ w2 @ srt_time h2 m2 s2 ms2) texts @ post) =
     Inr [\<lparr>seg_start = Some (seconds_of (digits_val h1) (digits_val m1) (digits_val s1) (digits_val ms1)),
            seg_end = Some (seconds_of (digits_val h2) (digits_val m2) (digits_val s2) (digits_val ms2)),
            seg_text = Some (strip (join '' '' texts))\<rparr>] \<and>
   parse_srt (pre @ caption_block idx
       (srt_time h1 m1 s1 ms1 @ w1 @ '' --> '' @ w2 @ srt_time h2 m2 s2 ms2) texts @ post) =
   parse_srt (pre @ caption_block idx
       (srt_time h1 m1 s1 ms1 @ '' --> '' @ srt_time h2 m2 s2 ms2) texts @ post)"
proof
  assume a: "index_line idx \<and> text_lines texts \<and>
   digit_field 2 h1 \<and> digit_field 2 m1 \<and> digit_field 2 s1 \<and> digit_field 3 ms1 \<and>
   digit_field 2 h2 \<and> digit_field 2 m2 \<and> digit_field 2 s2 \<and> digit_field 3 ms2 \<and>
   blanks w1 \<and> blanks w2 \<and> list_all isspace pre \<and> list_all isspace post"
  then have 1: "parse_srt (pre @ caption_block idx
            (timing_line (srt_time h1 m1 s1 ms1) w1 w2 (srt_time h2 m2 s2 ms2)) texts @ post) =
    Inr [\<lparr>seg_start = Some (time_value h1 m1 s1 ms1), seg_end = Some (time_value h2 m2 s2 ms2),
           seg_text = Some (strip (join '' '' texts))\<rparr>]"
    by (intro parse_block_value) simp_all
  from a have 2: "parse_srt (pre @ caption_block idx
            (timing_line (srt_time h1 m1 s1 ms1) [] [] (srt_time h2 m2 s2 ms2)) texts @ post) =
    Inr [\<lparr>seg_start = Some (time_value h1 m1 s1 ms1), seg_end = Some (time_value h2 m2 s2 ms2),
           seg_text = Some (strip (join '' '' texts))\<rparr>]"
    by (intro parse_block_value blanks_Nil) simp_all
  from 1 2 show "parse_srt (pre @ caption_block idx
       (srt_time h1 m1 s1 ms1 @ w1 @ '' --> '' @ w2 @ srt_time h2 m2 s2 ms2) texts @ post) =
     Inr [\<lparr>seg_start = Some (seconds_of (digits_val h1) (digits_val m1) (digits_val s1) (digits_val ms1)),
            seg_end = Some (seconds_of (digits_val h2) (digits_val m2) (digits_val s2) (digits_val ms2)),
            seg_text = Some (strip (join '' '' texts))\<rparr>] \<and>
   parse_srt (pre @ caption_block idx
       (srt_time h1 m1 s1 ms1 @ w1 @ '' --> '' @ w2 @ srt_time h2 m2 s2 ms2) texts @ post) =
   parse_srt (pre @ caption_block idx
       (srt_time h1 m1 s1 ms1 @ '' --> '' @ srt_time h2 m2 s2 ms2) texts @ post)"
    by (simp add: timing_line_def time_value_def)
qed

lemma example_blanks: "blanks ''  ''" "blanks [CHR 0x09]"
  by code_simp+

theorem timing_whitespace_tolerated_witness:
  "index_line ''1'' \<and> text_lines [''Hello'', ''world''] \<and>
   digit_field 2 ''00'' \<and> digit_field 2 ''01'' \<and> digit_field 2 ''02'' \<and> digit_field 3 ''000'' \<and>
   blanks ''  '' \<and> blanks [CHR 0x09] \<and> list_all isspace [] \<and> list_all isspace ''\<newline>'' \<and>
   parse_srt (''1\<newline>00:00:01,000   --> '' @ [CHR 0x09] @ ''00:01:02,000\<newline>Hello\<newline>world\<newline>'') =
     Inr [\<lparr>seg_start = Some (Fl 1), seg_end = Some (Fl 62), seg_text = Some ''Hello world''\<rparr>] \<and>
   parse_srt (''1\<newline>00:00:01,000   --> '' @ [CHR 0x09] @ ''00:01:02,000\<newline>Hello\<newline>world\<newline>'') =
   parse_srt ''1\<newline>00:00:01,000 --> 00:01:02,000\<newline>Hello\<newline>world\<newline>''"
  using timing_whitespace_tolerated [of "''1''" "[''Hello'', ''world'']" "''00''" "''00''" "''01''" "''000''"
      "''00''" "''01''" "''02''" "''000''" "''  ''" "[CHR 0x09]" "[]" "''\<newline>''"]
  by (auto simp: example_fields example_lines example_blanks seconds_of_whole caption_block_def
      srt_time_def)

section \<open>What every parsed segment satisfies\<close>

lemma split_subset: "g \<in> set (split sep s) \<Longrightarrow> set g \<subseteq> set s"
proof (induction sep s arbitrary: g rule: split.induct)
  case (1 sep)
  then show ?case by simp
next
  case (2 sep c cs)
  show ?case
  proof (cases "sep \<noteq> [] \<and> take (length sep) (c # cs) = sep")
    case True
    with 2(3) have "g = [] \<or> g \<in> set (split sep (drop (length sep) (c # cs)))" by auto
    then show ?thesis
    proof
      assume "g = []" then show ?thesis by simp
    next
      assume "g \<in> set (split sep (drop (length sep) (c # cs)))"
      then have "set g \<subseteq> set (drop (length sep) (c # cs))" using 2(1) True by blast
      then show ?thesis using set_drop_subset[of "length sep" "c # cs"] by blast
    qed
  next
    case False
    obtain r rs where r: "split sep cs = r # rs"
      using split_nonempty[of sep cs] by (cases "split sep cs") auto
    with False 2(3) have "g = c # r \<or> g \<in> set rs" by auto
    then show ?thesis
    proof
      assume "g = c # r"
      moreover have "set r \<subseteq> set cs" using 2(2)[of r] False r by auto
      ultimately show ?thesis by auto
    next
      assume "g \<in> set rs"
      then have "set g \<subseteq> set cs" using 2(2)[of g] False r by auto
      then show ?thesis by auto
    qed
  qed
qed

lemma split_covers: "c \<in> set s \<Longrightarrow> c \<notin> set sep \<Longrightarrow> \<exists>g \<in> set (split sep s). c \<in> set g"
proof (induction sep s rule: split.induct)
  case (1 sep)
  then show ?case by simp
next
  case (2 sep x xs)
  show ?case
  proof (cases "sep \<noteq> [] \<and> take (length sep) (x # xs) = sep")
    case True
    have "x # xs = take (length sep) (x # xs) @ drop (length sep) (x # xs)" by simp
    then have "x # xs = sep @ drop (length sep) (x # xs)" using True by simp
    then have "set (x # xs) = set sep \<union> set (drop (length sep) (x # xs))"
      by (metis set_append)
    with 2(3,4) have "c \<in> set (drop (length sep) (x # xs))" by blast
    then have "\<exists>g \<in> set (split sep (drop (length sep) (x # xs))). c \<in> set g"
      using 2(1) True 2(4) by blast
    then show ?thesis using True by auto
  next
    case False
    obtain r rs where r: "split sep xs = r # rs"
      using split_nonempty[of sep xs] by (cases "split sep xs") auto
    show ?thesis
    proof (cases "c = x")
      case True
      then show ?thesis using False r by auto
    next
      case ne: False
      then have "c \<in> set xs" using 2(3) by simp
      then have "\<exists>g \<in> set (r # rs). c \<in> set g" using 2(2) False 2(4) r by auto
      then show ?thesis using False r by auto
    qed
  qed
qed

lemma set_strip: "set (strip s) \<subseteq> set s"
proof -
  have "set (strip s) = set (dropWhile isspace (rev (dropWhile isspace s)))"
    by (simp add: strip_def)
  also have "\<dots> \<subseteq> set (rev (dropWhile isspace s))" by (auto dest: set_dropWhileD)
  also have "\<dots> \<subseteq> set s" by (auto dest: set_dropWhileD)
  finally show ?thesis .
qed

lemma strip_ends:
  assumes "strip s \<noteq> []"
  shows "\<not> isspace (hd (strip s))" "\<not> isspace (last (strip s))"
proof -
  let ?d = "dropWhile isspace s"
  let ?e = "dropWhile isspace (rev ?d)"
  have s: "strip s = rev ?e" by (simp add: strip_def)
  then have e: "?e \<noteq> []" using assms by simp
  have d: "?d \<noteq> []"
  proof
    assume "?d = []"
    then have "rev ?d = []" by (simp only: rev.simps)
    then have "?e = []" by (simp only: dropWhile.simps)
    with e show False by simp
  qed
  have "\<not> isspace (hd ?e)" using e by (rule hd_dropWhile)
  then show "\<not> isspace (last (strip s))" using e by (simp add: s last_rev)
  have "rev ?d = takeWhile isspace (rev ?d) @ ?e" by simp
  then have "last (rev ?d) = last ?e" using e by (metis last_appendR)
  then have "last ?e = hd ?d" using d by (simp add: last_rev)
  moreover have "\<not> isspace (hd ?d)" using d by (rule hd_dropWhile)
  ultimately show "\<not> isspace (hd (strip s))" using e by (simp add: s hd_rev)
qed

lemma strip_idem: "strip (strip s) = strip s"
proof (cases "strip s = []")
  case True
  have "strip [] = []" by (simp add: strip_def)
  then show ?thesis using True by simp
next
  case False
  then show ?thesis using strip_ends[OF False] by (intro strip_tight)
qed

lemma digits_val_nonneg: "\<forall>c \<in> set ds. isdigit c \<Longrightarrow> 0 \<le> digits_val ds"
  using digits_val_range[of ds] by (simp add: list_all_iff)

lemma py_int_unsigned:
  assumes "py_int s = Inr n" "CHR ''-'' \<notin> set s"
  shows "0 \<le> n"
proof -
  let ?t = "map (\<lambda>c. if of_char c \<in> {133, 160 :: nat} then CHR '' '' else c) s"
  let ?t1 = "dropWhile c_isspace ?t"
  let ?t2 = "if ?t1 \<noteq> [] \<and> (hd ?t1 = CHR ''+'' \<or> hd ?t1 = CHR ''-'') then tl ?t1 else ?t1"
  let ?t3 = "rev (dropWhile c_isspace (rev ?t2))"
  let ?ds = "filter (\<lambda>c. c \<noteq> CHR ''_'') ?t3"
  have "CHR ''-'' \<notin> set ?t" using assms(2) by auto
  then have "CHR ''-'' \<notin> set ?t1" by (auto dest: set_dropWhileD)
  then have neg: "\<not> (?t1 \<noteq> [] \<and> hd ?t1 = CHR ''-'')" by (metis hd_in_set)
  from assms(1) have ok: "digit_groups_ok ?t3" and n: "n = (if ?t1 \<noteq> [] \<and> hd ?t1 = CHR ''-'' then - digits_val ?ds else digits_val ?ds)"
    unfolding py_int_def Let_def by (auto split: if_splits)
  have "\<forall>c \<in> set ?ds. isdigit c"
  proof
    fix c assume "c \<in> set ?ds"
    then have c: "c \<in> set ?t3" "c \<notin> set ''_''" by auto
    from split_covers[OF c] obtain g where "g \<in> set (split ''_'' ?t3)" "c \<in> set g" by blast
    then show "isdigit c" using ok unfolding digit_groups_ok_def by blast
  qed
  then have "0 \<le> digits_val ?ds" by (rule digits_val_nonneg)
  moreover have "n = digits_val ?ds" using n neg by (simp only: if_False)
  ultimately show ?thesis by simp
qed

lemma float_of_int_nonneg:
  assumes "0 \<le> n" "float_of_int n = Inr w"
  shows "\<exists>r. w = Fl r \<and> 0 \<le> r"
proof -
  have "(0::rat) \<le> of_int n" using assms(1) by simp
  from round_double_nonneg[OF this] assms(2) show ?thesis
    by (auto simp: float_of_int_def)
qed

lemma int_truediv_nonneg:
  assumes "0 \<le> a" "0 < b" "int_truediv a b = Inr w"
  shows "\<exists>r. w = Fl r \<and> 0 \<le> r"
proof -
  have "(0::rat) \<le> of_int a / of_int b" using assms(1,2) by simp
  from round_double_nonneg[OF this] assms(2,3) show ?thesis
    by (auto simp: int_truediv_def)
qed

lemma non_negative_add: "0 \<le> r \<Longrightarrow> 0 \<le> q \<Longrightarrow> non_negative (float_add (Fl r) (Fl q))"
  using round_double_nonneg[of "r + q"] by (auto simp: non_negative_def float_ge_def)

lemma in_split2: "split sep s = [a, b] \<Longrightarrow> set a \<subseteq> set s \<and> set b \<subseteq> set s"
  using split_subset[of a sep s] split_subset[of b sep s] by simp

lemma in_split3: "split sep s = [a, b, c] \<Longrightarrow> set a \<subseteq> set s \<and> set b \<subseteq> set s \<and> set c \<subseteq> set s"
  using split_subset[of a sep s] split_subset[of b sep s] split_subset[of c sep s] by simp

lemma parse_srt_timestamp_unsigned:
  assumes "parse_srt_timestamp ts = Inr v" "CHR ''-'' \<notin> set ts"
  shows "non_negative v"
proof -
  from assms(1) obtain time_part ms_part h m s hv mv sv msv fraction whole where
    sp: "split '','' ts = [time_part, ms_part]" "split '':'' time_part = [h, m, s]" and
    iv: "py_int h = Inr hv" "py_int m = Inr mv" "py_int s = Inr sv" "py_int ms_part = Inr msv" and
    fl: "int_truediv msv 1000 = Inr fraction" "float_of_int (hv * 3600 + mv * 60 + sv) = Inr whole" and
    v: "v = float_add whole fraction"
    unfolding parse_srt_timestamp_def by (auto split: list.splits sum.splits)
  from in_split2[OF sp(1)] assms(2) have a: "CHR ''-'' \<notin> set time_part" "CHR ''-'' \<notin> set ms_part"
    by auto
  from in_split3[OF sp(2)] a(1) have b: "CHR ''-'' \<notin> set h" "CHR ''-'' \<notin> set m" "CHR ''-'' \<notin> set s"
    by auto
  have n: "0 \<le> hv" "0 \<le> mv" "0 \<le> sv" "0 \<le> msv"
    using py_int_unsigned iv a(2) b by blast+
  then have "0 \<le> hv * 3600 + mv * 60 + sv" by simp
  from float_of_int_nonneg[OF this fl(2)] obtain r where r: "whole = Fl r" "0 \<le> r" by blast
  from int_truediv_nonneg[OF n(4) _ fl(1)] obtain q where q: "fraction = Fl q" "0 \<le> q" by auto
  show ?thesis unfolding v r(1) q(1) using r(2) q(2) by (rule non_negative_add)
qed

lemma parse_srt_try_own:
  assumes "parse_srt_try lines = Inr (Some seg)"
  shows "\<exists>start end' text. seg = \<lparr>seg_start = Some start, seg_end = Some end', seg_text = Some text\<rparr> \<and>
    strip text \<noteq> [] \<and>
    (CHR ''-'' \<notin> set (strip (hd (split '' --> '' (lines ! 1)))) \<longrightarrow> non_negative start)"
proof -
  from assms obtain start_ts end_ts start end' where
    sp: "split '' --> '' (lines ! 1) = [start_ts, end_ts]" and
    st: "parse_srt_timestamp (strip start_ts) = Inr start" and
    seg: "seg = \<lparr>seg_start = Some start, seg_end = Some end',
                  seg_text = Some (strip (join '' '' (drop 2 lines)))\<rparr>" and
    ne: "strip (join '' '' (drop 2 lines)) \<noteq> []"
    unfolding parse_srt_try_def Let_def by (auto split: list.splits sum.splits if_splits)
  have nn: "CHR ''-'' \<notin> set (strip start_ts) \<Longrightarrow> non_negative start"
    using parse_srt_timestamp_unsigned[OF st] by blast
  have hd: "hd (split '' --> '' (lines ! 1)) = start_ts" unfolding sp by simp
  have "strip (strip (join '' '' (drop 2 lines))) \<noteq> []" using ne by (simp add: strip_idem)
  then show ?thesis unfolding hd seg using nn by blast
qed

lemma segment_of_own:
  assumes "segment_of block = Some seg"
  shows "(\<exists>text. seg_text seg = Some text \<and> strip text \<noteq> []) \<and>
    (CHR ''-'' \<notin> set (start_stamp block) \<longrightarrow>
       (\<exists>start. seg_start seg = Some start \<and> float_ge start (Fl 0)))"
proof -
  let ?lines = "split ''\<newline>'' (strip block)"
  from assms have len: "3 \<le> length ?lines" and t: "parse_srt_try ?lines = Inr (Some seg)"
    unfolding segment_of_def Let_def by (auto split: if_splits sum.splits option.splits)
  have ss: "start_stamp block = strip (hd (split '' --> '' (?lines ! 1)))"
    using len by (simp add: start_stamp_def Let_def)
  from parse_srt_try_own[OF t] show ?thesis
    unfolding ss by (auto simp: non_negative_def)
qed

lemma parse_srt_loop_origin:
  "parse_srt_loop blocks acc = Inr segs \<Longrightarrow> seg \<in> set segs \<Longrightarrow>
   seg \<in> set acc \<or> (\<exists>block \<in> set blocks. segment_of block = Some seg)"
proof (induction blocks arbitrary: acc)
  case Nil
  then show ?case by simp
next
  case (Cons block blocks)
  let ?lines = "split ''\<newline>'' (strip block)"
  show ?case
  proof (cases "segment_of block")
    case None
    then have "parse_srt_loop blocks acc = Inr segs" using Cons.prems(1)
      by (auto simp: segment_of_def Let_def split: if_splits sum.splits option.splits)
    from Cons.IH[OF this Cons.prems(2)] show ?thesis by auto
  next
    case (Some s)
    then have "parse_srt_loop blocks (acc @ [s]) = Inr segs" using Cons.prems(1)
      by (auto simp: segment_of_def Let_def split: if_splits sum.splits option.splits)
    from Cons.IH[OF this Cons.prems(2)] show ?thesis using Some by auto
  qed
qed

text \<open>
  Claim C8, amended. For every input on which the parser returns, every segment of the
  output is the segment of a block of the input and has a text that is non-empty after
  trimming; and its start is not negative whenever the start timestamp of its own block,
  the part of the timing line before the separator, has no minus sign. Other blocks of
  the input do not matter.
\<close>

theorem parsed_segments_invariant:
  "parse_srt content = Inr segs \<longrightarrow>
   (\<forall>seg \<in> set segs.
      (\<exists>text. seg_text seg = Some text \<and> strip text \<noteq> []) \<and>
      (\<exists>block \<in> set (split ''\<newline>\<newline>'' (strip content)). segment_of block = Some seg) \<and>
      (\<forall>block \<in> set (split ''\<newline>\<newline>'' (strip content)).
         segment_of block = Some seg \<and> CHR ''-'' \<notin> set (start_stamp block) \<longrightarrow>
           (\<exists>start. seg_start seg = Some start \<and> float_ge start (Fl 0))))"
proof (intro impI ballI conjI)
  fix seg
  assume p: "parse_srt content = Inr segs" and s: "seg \<in> set segs"
  from p have "parse_srt_loop (split ''\<newline>\<newline>'' (strip content)) [] = Inr segs"
    by (simp only: parse_srt_def)
  from parse_srt_loop_origin[OF this s]
  show o: "\<exists>block \<in> set (split ''\<newline>\<newline>'' (strip content)). segment_of block = Some seg"
    by simp
  then show "\<exists>text. seg_text seg = Some text \<and> strip text \<noteq> []"
    using segment_of_own by blast
next
  fix seg block
  assume "segment_of block = Some seg \<and> CHR ''-'' \<notin> set (start_stamp block)"
  then show "\<exists>start. seg_start seg = Some start \<and> float_ge start (Fl 0)"
    using segment_of_own by blast
qed

lemma example_parse:
  "parse_srt ''1\<newline>00:00:01,000 --> 00:01:02,000\<newline>Hello\<newline>world'' =
     Inr [\<lparr>seg_start = Some (Fl 1), seg_end = Some (Fl 62), seg_text = Some ''Hello world''\<rparr>]"
  using parse_block_value [of "''1''" "[''Hello'', ''world'']" "''00''" "''00''" "''01''" "''000''"
      "''00''" "''01''" "''02''" "''000''" "[]" "[]" "[]" "[]"]
  by (simp add: example_fields example_lines seconds_of_whole caption_block_def srt_time_def
      timing_line_def time_value_def blanks_Nil)

lemma example_blocks:
  "strip ''note\<newline>well-known\<newline>\<newline>1\<newline>00:00:01,000 --> 00:01:02,000\<newline>Hello\<newline>world'' =
     ''note\<newline>well-known\<newline>\<newline>1\<newline>00:00:01,000 --> 00:01:02,000\<newline>Hello\<newline>world''"
  "split ''\<newline>\<newline>'' ''note\<newline>well-known\<newline>\<newline>1\<newline>00:00:01,000 --> 00:01:02,000\<newline>Hello\<newline>world'' =
     [''note\<newline>well-known'', ''1\<newline>00:00:01,000 --> 00:01:02,000\<newline>Hello\<newline>world'']"
  "strip ''note\<newline>well-known'' = ''note\<newline>well-known''"
  "split ''\<newline>'' ''note\<newline>well-known'' = [''note'', ''well-known'']"
  "strip ''1\<newline>00:00:01,000 --> 00:01:02,000\<newline>Hello\<newline>world'' =
     ''1\<newline>00:00:01,000 --> 00:01:02,000\<newline>Hello\<newline>world''"
  "split ''\<newline>\<newline>'' ''1\<newline>00:00:01,000 --> 00:01:02,000\<newline>Hello\<newline>world'' =
     [''1\<newline>00:00:01,000 --> 00:01:02,000\<newline>Hello\<newline>world'']"
  "start_stamp ''1\<newline>00:00:01,000 --> 00:01:02,000\<newline>Hello\<newline>world'' = ''00:00:01,000''"
  "segment_of ''note\<newline>well-known'' = None"
  "CHR ''-'' \<in> set (start_stamp ''note\<newline>well-known'')"
  by code_simp+

lemma example_two_blocks:
  "parse_srt ''note\<newline>well-known\<newline>\<newline>1\<newline>00:00:01,000 --> 00:01:02,000\<newline>Hello\<newline>world'' =
     Inr [\<lparr>seg_start = Some (Fl 1), seg_end = Some (Fl 62), seg_text = Some ''Hello world''\<rparr>]"
proof -
  have "parse_srt_loop [''1\<newline>00:00:01,000 --> 00:01:02,000\<newline>Hello\<newline>world''] [] =
     Inr [\<lparr>seg_start = Some (Fl 1), seg_end = Some (Fl 62), seg_text = Some ''Hello world''\<rparr>]"
    using example_parse unfolding parse_srt_def example_blocks .
  then show ?thesis
    unfolding parse_srt_def example_blocks
    by (subst parse_srt_loop.simps) (simp add: example_blocks Let_def)
qed

lemma example_segment_of:
  "segment_of ''1\<newline>00:00:01,000 --> 00:01:02,000\<newline>Hello\<newline>world'' =
     Some \<lparr>seg_start = Some (Fl 1), seg_end = Some (Fl 62), seg_text = Some ''Hello world''\<rparr>"
proof -
  have "parse_srt_loop [''1\<newline>00:00:01,000 --> 00:01:02,000\<newline>Hello\<newline>world''] [] =
     Inr [\<lparr>seg_start = Some (Fl 1), seg_end = Some (Fl 62), seg_text = Some ''Hello world''\<rparr>]"
    using example_parse unfolding parse_srt_def example_blocks .
  from parse_srt_loop_origin[OF this, of "\<lparr>seg_start = Some (Fl 1), seg_end = Some (Fl 62), seg_text = Some ''Hello world''\<rparr>"]
  show ?thesis by simp
qed

theorem parsed_segments_invariant_witness:
  "parse_srt ''note\<newline>well-known\<newline>\<newline>1\<newline>00:00:01,000 --> 00:01:02,000\<newline>Hello\<newline>world'' =
     Inr [\<lparr>seg_start = Some (Fl 1), seg_end = Some (Fl 62), seg_text = Some ''Hello world''\<rparr>] \<and>
   split ''\<newline>\<newline>'' (strip ''note\<newline>well-known\<newline>\<newline>1\<newline>00:00:01,000 --> 00:01:02,000\<newline>Hello\<newline>world'') =
     [''note\<newline>well-known'', ''1\<newline>00:00:01,000 --> 00:01:02,000\<newline>Hello\<newline>world''] \<and>
   CHR ''-'' \<in> set (start_stamp ''note\<newline>well-known'') \<and>
   segment_of ''1\<newline>00:00:01,000 --> 00:01:02,000\<newline>Hello\<newline>world'' =
     Some \<lparr>seg_start = Some (Fl 1), seg_end = Some (Fl 62), seg_text = Some ''Hello world''\<rparr> \<and>
   CHR ''-'' \<notin> set (start_stamp ''1\<newline>00:00:01,000 --> 00:01:02,000\<newline>Hello\<newline>world'') \<and>
   strip ''Hello world'' \<noteq> [] \<and> float_ge (Fl 1) (Fl 0)"
  using parsed_segments_invariant
    [of "''note\<newline>well-known\<newline>\<newline>1\<newline>00:00:01,000 --> 00:01:02,000\<newline>Hello\<newline>world''"
      "[\<lparr>seg_start = Some (Fl 1), seg_end = Some (Fl 62), seg_text = Some ''Hello world''\<rparr>]"]
    example_two_blocks example_segment_of
  by (simp add: example_blocks)

lemma signed_pieces:
  "split '','' ''-01:00:00,000'' = [''-01:00:00'', ''000'']"
  "split '':'' ''-01:00:00'' = [''-01'', ''00'', ''00'']"
  "py_int ''-01'' = Inr (- 1)" "py_int ''00'' = Inr 0" "py_int ''000'' = Inr 0"
  "stamp ''-01:00:00,000''" "stamp ''00:00:02,000''" "index_line ''1''" "text_lines [''hi'']"
  "strip ''hi'' = ''hi''"
  by code_simp+

lemma int_truediv_0: "int_truediv 0 1000 = Inr (Fl 0)"
  by (simp add: int_truediv_def round_double_def)

lemma parse_signed_timestamp: "parse_srt_timestamp ''-01:00:00,000'' = Inr (Fl (- 3600))"
proof -
  have "float_of_int (- 3600) = Inr (Fl (- 3600))"
    using float_of_int_small[of "- 3600"] by simp
  moreover have "round_double (- 3600) = Fl (- 3600)"
    using round_double_int[of "- 3600"] by simp
  ultimately show ?thesis
    unfolding parse_srt_timestamp_def signed_pieces by (simp add: signed_pieces int_truediv_0)
qed

lemma parse_two_seconds: "parse_srt_timestamp ''00:00:02,000'' = Inr (Fl 2)"
  using parse_srt_timestamp_value[of "''00''" "''00''" "''02''" "''000''"]
  by (simp add: example_fields srt_time_def time_value_def seconds_of_whole)

text \<open>
  Claim C8 as stated fails: \<open>int\<close> reads a signed field, so the start timestamp
  \<open>-01:00:00,000\<close> gives a segment whose start is -3600 seconds.
\<close>

theorem negative_start_counterexample:
  "parse_srt ''1\<newline>-01:00:00,000 --> 00:00:02,000\<newline>hi'' =
     Inr [\<lparr>seg_start = Some (Fl (- 3600)), seg_end = Some (Fl 2), seg_text = Some ''hi''\<rparr>] \<and>
   \<not> float_ge (Fl (- 3600)) (Fl 0)"
proof -
  have "parse_srt ([] @ caption_block ''1'' (timing_line ''-01:00:00,000'' [] [] ''00:00:02,000'') [''hi''] @ []) =
     Inr [\<lparr>seg_start = Some (Fl (- 3600)), seg_end = Some (Fl 2), seg_text = Some ''hi''\<rparr>]"
    by (subst parse_single_block)
      (simp_all add: signed_pieces blanks_Nil parse_signed_timestamp parse_two_seconds)
  then show ?thesis by (simp add: caption_block_def timing_line_def float_ge_def)
qed

lemma digits_val_power: "digits_val (CHR ''1'' # replicate n CHR ''0'') = 10 ^ n"
proof (induction n)
  case 0
  show ?case by code_simp
next
  case (Suc n)
  have "CHR ''1'' # replicate (Suc n) CHR ''0'' = (CHR ''1'' # replicate n CHR ''0'') @ [CHR ''0'']"
    by (simp add: replicate_append_same)
  moreover have "digit_val CHR ''0'' = 0" by code_simp
  ultimately show ?case using Suc by (simp only: digits_val_snoc) simp
qed

lemma float_of_int_overflow: "2 ^ 1024 \<le> n \<Longrightarrow> float_of_int n = Inl OverflowError"
proof -
  assume "2 ^ 1024 \<le> n"
  then have "(of_int (2 ^ 1024) :: rat) \<le> of_int n" by (simp only: of_int_le_iff)
  then have "(2 :: rat) ^ 1024 \<le> of_int n" by simp
  then have "round_double (of_int n) = PInf" by (rule round_double_overflow)
  then show ?thesis by (simp add: float_of_int_def)
qed

lemma numeric_big: "numeric (CHR ''1'' # replicate 305 CHR ''0'')"
proof -
  have "isdigit CHR ''1''" "isdigit CHR ''0''" by code_simp+
  then show ?thesis by (simp add: numeric_def list_all_iff)
qed

lemma numeric_zeros: "numeric ''00''" "numeric ''000''" "numeric ''01''"
  by code_simp+

lemma parse_big_timestamp:
  "parse_srt_timestamp (srt_time (CHR ''1'' # replicate 305 CHR ''0'') ''00'' ''00'' ''000'') =
     Inl OverflowError"
proof -
  have "(2::int) ^ 1024 \<le> 10 ^ 305 * 3600 + 0 * 60 + 0" by simp
  then have "float_of_int (10 ^ 305 * 3600 + 0 * 60 + 0) = Inl OverflowError"
    by (rule float_of_int_overflow)
  then show ?thesis
    unfolding parse_srt_timestamp_numeric[OF numeric_big numeric_zeros(1) numeric_zeros(1) numeric_zeros(2)]
    by (simp add: digits_val_power example_fields int_truediv_0)
qed

text \<open>
  Claim C2 at a failing input. The hour field of the block below has 306 digits; the sum
  \<open>int(h) * 3600 + ...\<close> is then too large to convert to a float for the final addition,
  Python raises \<open>OverflowError\<close>, the clause \<open>except (ValueError, IndexError)\<close> does not
  catch it, and \<open>parse_srt\<close> raises instead of skipping the block.
\<close>

theorem overflow_escapes:
  "parse_srt (''1\<newline>1'' @ replicate 305 CHR ''0'' @ '':00:00,000 --> 00:00:01,000\<newline>hi'') =
     Inl OverflowError"
proof -
  have s1: "stamp (srt_time (CHR ''1'' # replicate 305 CHR ''0'') ''00'' ''00'' ''000'')"
    by (intro stamp_srt_time numeric_big numeric_zeros)
  have s2: "stamp (srt_time ''00'' ''00'' ''01'' ''000'')"
    by (intro stamp_srt_time numeric_zeros)
  have "parse_srt ([] @ caption_block ''1''
      (timing_line (srt_time (CHR ''1'' # replicate 305 CHR ''0'') ''00'' ''00'' ''000'') [] []
         (srt_time ''00'' ''00'' ''01'' ''000'')) [''hi''] @ []) = Inl OverflowError"
    by (subst parse_single_block)
      (simp_all add: s1 s2 signed_pieces blanks_Nil parse_big_timestamp)
  then show ?thesis by (simp add: caption_block_def timing_line_def srt_time_def)
qed

end
